theory Spec2Isabelle
  imports Complex_Main "HOL-Library.Word"
begin

text \<open>
  A shallow embedding of four parts of Operon, a framework for symbolic regression by
  genetic programming, and what is proved of them: the reverse-mode derivative rules of
  the Mul and Div nodes (\<open>autodiff/reverse/derivatives.hpp\<close>), non-dominated sorting by
  dominance degree (\<open>dominance_degree_sort.cpp\<close>), the evolutionary loop
  (\<open>algorithms/gp.hpp\<close>) and the grow tree creator (\<open>operators/initialization.hpp\<close>).
  The first half of the theory is the model, one section for each part; the second half
  are the properties, in the same order.
\<close>

section \<open>Expression nodes\<close>

text \<open>
  The primitive kinds that occur in the derivative table and in the tree creator.
  \<open>PowN\<close> is the kind \<open>Pow\<close> of the source (renamed: \<open>Pow\<close> is the power set in HOL).
\<close>

datatype NodeType =
    Add | Mul | Sub | Div | Aq | PowN
  | Exp | Log | Logabs | Log1p | Sin | Cos | Tan | Tanh | Asin | Acos | Atan
  | Sqrt | Sqrtabs | Cbrt
  | Constant | Variable

text \<open>
  A node of the flattened tree. \<open>Length\<close> is the number of nodes below the node (the
  node itself not counted): the derivative rules step from a child at index \<open>j\<close> to its
  next sibling at \<open>j - (Length + 1)\<close>.
\<close>

record Node =
  Type :: NodeType
  Arity :: nat
  Length :: nat
  HashValue :: nat
  CalculatedHashValue :: nat

section \<open>Reverse-mode differentiation: the rules of Mul and Div\<close>

text \<open>
  The columns \<open>values.col(k)\<close>, \<open>rnodes[j].P\<close> and \<open>rnodes[i].D[k]\<close> are Eigen arrays
  with coefficient-wise arithmetic. The carrier \<open>'a\<close> stands for such a column; its
  operators \<open>*\<close>, \<open>/\<close> and unary \<open>-\<close> are left uninterpreted (syntactic type classes
  only), so what is proved about the rules holds for floating-point columns as it does
  for real numbers.
\<close>

record 'a rnode =
  P :: 'a
  D :: "'a list"

datatype error = runtime_error string

definition square :: "'a::times \<Rightarrow> 'a" where
  "square x = x * x"

text \<open>The assignment \<open>rnodes[i].D[k] = v\<close>.\<close>

definition set_D :: "'a rnode list \<Rightarrow> nat \<Rightarrow> nat \<Rightarrow> 'a \<Rightarrow> 'a rnode list" where
  "set_D rnodes i k v = rnodes[i := (rnodes ! i)\<lparr>D := (D (rnodes ! i))[k := v]\<rparr>]"

text \<open>
  Modelled from the spec: \<open>Subtree::Indices\<close> and \<open>Subtree::EnumerateIndices\<close> of
  \<open>operon/core/subtree.hpp\<close>, which is not among the sources. The spec describes the
  navigation primitive as yielding the \<open>(child-position, child-root-index)\<close> pairs of the
  direct children of a node, found from the \<open>Length\<close> fields alone. The walk is the one the
  binary branches of the derivative rules write out by hand: the first child of node
  \<open>i\<close> is at \<open>i - 1\<close>, and the sibling after the child at \<open>j\<close> is at
  \<open>j - (Length + 1)\<close>.
\<close>

fun child_indices :: "Node list \<Rightarrow> nat \<Rightarrow> nat \<Rightarrow> nat list" where
  "child_indices nodes j 0 = []"
| "child_indices nodes j (Suc c) = j # child_indices nodes (j - (Length (nodes ! j) + 1)) c"

definition Indices :: "Node list \<Rightarrow> nat \<Rightarrow> nat list" where
  "Indices nodes i = child_indices nodes (i - 1) (Arity (nodes ! i))"

definition Enumerate :: "Node list \<Rightarrow> nat \<Rightarrow> (nat \<times> nat) list" where
  "Enumerate nodes i = List.enumerate 0 (Indices nodes i)"

text \<open>
  \<open>Derivative<NodeType::Mul>::operator()\<close>. In the n-ary branch \<open>d\<close> refers to
  \<open>rnodes[i].D[x]\<close>; the inner loop is folded over a local and stored once.
\<close>

definition Derivative_Mul ::
  "Node list \<Rightarrow> ('a::times) list \<Rightarrow> 'a rnode list \<Rightarrow> nat \<Rightarrow> 'a rnode list" where
  "Derivative_Mul nodes values rnodes i =
    (let n = nodes ! i in
     if Arity n = 2 then
       (let j = i - 1;
            k = j - (Length (nodes ! j) + 1);
            r1 = set_D rnodes i 0 (P (rnodes ! j) * values ! k);
            r2 = set_D r1 i 1 (P (r1 ! k) * values ! j)
        in r2)
     else
       fold (\<lambda>(x, j) rn.
               set_D rn i x
                 (fold (\<lambda>k d. if j = k then d else d * values ! k)
                       (Indices nodes i) (P (rn ! j))))
            (Enumerate nodes i) rnodes)"

text \<open>
  \<open>Derivative<NodeType::Div>::operator()\<close>. The \<open>throw std::runtime_error\<close> is the
  \<open>Inl\<close> result. The last branch is the source's empty \<open>else\<close> (arity 0).
\<close>

definition Derivative_Div ::
  "Node list \<Rightarrow> ('a::{times,inverse,uminus}) list \<Rightarrow> 'a rnode list \<Rightarrow> nat
     \<Rightarrow> error + 'a rnode list" where
  "Derivative_Div nodes values rnodes i =
    (let n = nodes ! i in
     if Arity n > 2 then
       Inl (runtime_error ''derivative of division with more than 2 children is not supported'')
     else if Arity n = 1 then
       (let j = i - 1
        in Inr (set_D rnodes i 0 (- P (rnodes ! j) / square (values ! j))))
     else if Arity n = 2 then
       (let j = i - 1;
            k = j - (Length (nodes ! j) + 1);
            r1 = set_D rnodes i 0 (P (rnodes ! j) / values ! k);
            r2 = set_D r1 i 1 (- P (r1 ! k) * values ! j / square (values ! k))
        in Inr r2)
     else Inr rnodes)"

text \<open>Nodes for the worked examples: a leaf, and an inner node of a given kind and arity
  over leaves.\<close>

definition leaf :: Node where
  "leaf = \<lparr>Type = Constant, Arity = 0, Length = 0, HashValue = 0, CalculatedHashValue = 0\<rparr>"

definition inner :: "NodeType \<Rightarrow> nat \<Rightarrow> Node" where
  "inner t a = \<lparr>Type = t, Arity = a, Length = a, HashValue = 0, CalculatedHashValue = 0\<rparr>"

section \<open>Non-dominated sorting by dominance degree\<close>

text \<open>
  An individual: a genotype and a fitness vector. \<open>pop[a][i]\<close> in the source is
  objective \<open>i\<close> of individual \<open>a\<close>. The scalar type is any linear order: the sorter
  only compares fitness values with \<open><\<close> and \<open>==\<close>. (NaN is outside this model: with
  NaN the comparator handed to \<open>std::sort\<close> is no strict weak ordering.)
\<close>

record 'a Individual =
  Genotype :: "Node list"
  Fitness :: "'a list"

definition objective :: "'a Individual list \<Rightarrow> nat \<Rightarrow> nat \<Rightarrow> 'a" where
  "objective pop a i = Fitness (pop ! a) ! i"

text \<open>
  Matrices are lists of rows, \<open>d(i, j)\<close> is \<open>d ! i ! j\<close>; \<open>idx\<close> is the list of its
  columns, \<open>idx.col(i)\<close> is \<open>idx ! i\<close>. The cells are counts between \<open>0\<close> and the number
  of objectives, so the 64-bit range of the source's cells is never left and they are
  natural numbers here.

  \<open>ComputeComparisonMatrix\<close>: the body of the loop over the sorted positions
  \<open>i = 1, \<dots>, n - 1\<close>, then the function.
\<close>

definition comparison_step ::
  "('a::linorder) Individual list \<Rightarrow> nat \<Rightarrow> nat list \<Rightarrow> nat \<Rightarrow> nat list list \<Rightarrow> nat list list" where
  "comparison_step pop colIdx b i c =
     (if objective pop (b ! i) colIdx = objective pop (b ! (i - 1)) colIdx
      then c[b ! i := c ! (b ! (i - 1))]
      else fold (\<lambda>j c. c[b ! i := (c ! (b ! i))[b ! j := 1]]) [i..<length pop] c)"

definition ComputeComparisonMatrix ::
  "('a::linorder) Individual list \<Rightarrow> nat list list \<Rightarrow> nat \<Rightarrow> nat list list" where
  "ComputeComparisonMatrix pop idx colIdx =
    (let n = length pop;
         c = replicate n (replicate n 0);
         b = idx ! colIdx;
         c = c[b ! 0 := replicate n 1]
     in fold (comparison_step pop colIdx b) [1..<n] c)"

text \<open>\<open>ComparisonMatrixSum\<close>: \<open>d += ComputeComparisonMatrix(pop, idx, i)\<close> for the columns
  after the first.\<close>

definition mat_add :: "nat list list \<Rightarrow> nat list list \<Rightarrow> nat list list" where
  "mat_add d c = map2 (map2 (+)) d c"

definition ComparisonMatrixSum ::
  "('a::linorder) Individual list \<Rightarrow> nat list list \<Rightarrow> nat list list" where
  "ComparisonMatrixSum pop idx =
    fold (\<lambda>i d. mat_add d (ComputeComparisonMatrix pop idx i)) [1..<length idx]
      (ComputeComparisonMatrix pop idx 0)"

text \<open>
  \<open>ComputeDegreeMatrix\<close>: the body of the inner loop is \<open>zero_pair\<close>; the chained
  assignment \<open>d(i, j) = d(j, i) = 0\<close> stores \<open>d(j, i)\<close> first. \<open>pop.front()\<close> is
  \<open>hd pop\<close>.
\<close>

definition zero_pair :: "nat \<Rightarrow> nat \<Rightarrow> nat \<Rightarrow> nat list list \<Rightarrow> nat list list" where
  "zero_pair m i j d =
     (if d ! i ! j = m \<and> d ! j ! i = m
      then (let d1 = d[j := (d ! j)[i := 0]] in d1[i := (d1 ! i)[j := 0]])
      else d)"

definition ComputeDegreeMatrix ::
  "('a::linorder) Individual list \<Rightarrow> nat list list \<Rightarrow> nat list list" where
  "ComputeDegreeMatrix pop idx =
    (let n = length pop;
         m = length (Fitness (hd pop));
         d = ComparisonMatrixSum pop idx
     in fold (\<lambda>i d. fold (zero_pair m i) [i..<n] d) [0..<n] d)"

text \<open>
  The loop \<open>while (count < n)\<close> of \<open>Sort\<close>. Nothing in the loop itself bounds the number
  of its iterations, so it is a partial function: \<open>None\<close> is a loop that never ends.
  Each iteration splits \<open>tmp\<close> into the new front and the remaining indices.
\<close>

partial_function (option) peel ::
  "nat list list \<Rightarrow> nat \<Rightarrow> nat \<Rightarrow> nat list \<Rightarrow> nat \<Rightarrow> nat list list \<Rightarrow> nat list list option" where
  "peel d m n tmp count fronts =
    (if count < n then
       (let front = filter (\<lambda>i. list_all (\<lambda>j. d ! j ! i < m) tmp) tmp;
            remaining = filter (\<lambda>i. \<not> list_all (\<lambda>j. d ! j ! i < m) tmp) tmp
        in peel d m n remaining (count + length front) (fronts @ [front]))
     else Some fronts)"

declare peel.simps [code]

text \<open>
  \<open>DominanceDegreeSorter::Sort\<close>. \<open>Sort_idx\<close> is the function after the index columns
  have been sorted. \<open>std::sort\<close> is not stable and leaves the order of equal values open;
  \<open>Sort\<close> sorts with the insertion sort of the library, and \<open>sorted_idx\<close> says what any
  run of \<open>std::sort\<close> guarantees: every column is a permutation of \<open>0, \<dots>, n - 1\<close> in
  ascending order of its objective. The results below hold for every such \<open>idx\<close>.
  On an empty population the source reads \<open>pop.front()\<close> of an empty span, which has no
  defined result: \<open>None\<close>.
\<close>

definition Sort_idx :: "('a::linorder) Individual list \<Rightarrow> nat list list \<Rightarrow> nat list list option" where
  "Sort_idx pop idx =
    (let n = length pop;
         m = length (Fitness (hd pop));
         d = ComputeDegreeMatrix pop idx
     in peel d m n [0..<n] 0 [])"

definition Sort :: "('a::linorder) Individual list \<Rightarrow> nat list list option" where
  "Sort pop =
    (if pop = [] then None
     else (let n = length pop;
               m = length (Fitness (hd pop));
               idx = map (\<lambda>i. sort_key (\<lambda>a. objective pop a i) [0..<n]) [0..<m]
           in Sort_idx pop idx))"

definition sorted_column :: "('a::linorder) Individual list \<Rightarrow> nat \<Rightarrow> nat list \<Rightarrow> bool" where
  "sorted_column pop colIdx b \<longleftrightarrow>
     distinct b \<and> set b = set [0..<length pop] \<and> sorted (map (\<lambda>a. objective pop a colIdx) b)"

definition sorted_idx :: "('a::linorder) Individual list \<Rightarrow> nat list list \<Rightarrow> bool" where
  "sorted_idx pop idx \<longleftrightarrow>
     length idx = length (Fitness (hd pop))
     \<and> list_all (\<lambda>i. sorted_column pop i (idx ! i)) [0..<length idx]"

text \<open>
  What the cells are compared with. \<open>no_worse_count pop i j\<close> is the number of objectives
  on which \<open>i\<close> is no worse than \<open>j\<close> (\<open>j\<close> is not better than \<open>i\<close>);
  \<open>not_better_count pop i j\<close> follows the words of the specification, the number of
  objectives on which \<open>i\<close> is not better than \<open>j\<close>. Lower values are better. Dominance
  is as in the glossary: no worse on every objective and strictly better on one.
\<close>

definition no_worse_count :: "('a::linorder) Individual list \<Rightarrow> nat \<Rightarrow> nat \<Rightarrow> nat" where
  "no_worse_count pop i j =
     length (filter (\<lambda>c. objective pop i c \<le> objective pop j c)
               [0..<length (Fitness (hd pop))])"

definition not_better_count :: "('a::linorder) Individual list \<Rightarrow> nat \<Rightarrow> nat \<Rightarrow> nat" where
  "not_better_count pop i j =
     length (filter (\<lambda>c. \<not> objective pop i c < objective pop j c)
               [0..<length (Fitness (hd pop))])"

definition dominates :: "('a::linorder) Individual \<Rightarrow> 'a Individual \<Rightarrow> bool" where
  "dominates a b \<longleftrightarrow>
     list_all (\<lambda>c. Fitness a ! c \<le> Fitness b ! c) [0..<length (Fitness a)]
     \<and> list_ex (\<lambda>c. Fitness a ! c < Fitness b ! c) [0..<length (Fitness a)]"

text \<open>Every individual carries \<open>m\<close> objectives.\<close>

definition uniform :: "'a Individual list \<Rightarrow> nat \<Rightarrow> bool" where
  "uniform pop m \<longleftrightarrow> list_all (\<lambda>ind. length (Fitness ind) = m) pop"

text \<open>An individual with a given fitness vector, for the worked examples.\<close>

definition individual :: "'a list \<Rightarrow> 'a Individual" where
  "individual fs = \<lparr>Genotype = [], Fitness = fs\<rparr>"

text \<open>
  The invariants of the three matrix loops: after the first \<open>k\<close> sorted positions, after
  the first \<open>k\<close> objectives, and after the pairs \<open>S\<close> have been visited.
\<close>

definition comparison_inv ::
  "('a::linorder) Individual list \<Rightarrow> nat \<Rightarrow> nat list \<Rightarrow> nat \<Rightarrow> nat list list \<Rightarrow> bool" where
  "comparison_inv pop colIdx b k c \<longleftrightarrow>
     length c = length pop
     \<and> (\<forall>r < length pop. length (c ! r) = length pop)
     \<and> (\<forall>i < k. \<forall>q < length pop.
           c ! (b ! i) ! q
             = (if objective pop (b ! i) colIdx \<le> objective pop q colIdx then 1 else 0))
     \<and> (\<forall>i. k \<le> i \<and> i < length pop \<longrightarrow> c ! (b ! i) = replicate (length pop) 0)"

definition sum_inv :: "('a::linorder) Individual list \<Rightarrow> nat \<Rightarrow> nat list list \<Rightarrow> bool" where
  "sum_inv pop k d \<longleftrightarrow>
     length d = length pop
     \<and> (\<forall>p < length pop. length (d ! p) = length pop)
     \<and> (\<forall>p < length pop. \<forall>q < length pop.
           d ! p ! q = length (filter (\<lambda>c. objective pop p c \<le> objective pop q c) [0..<k]))"

definition zero_inv ::
  "nat \<Rightarrow> nat \<Rightarrow> nat list list \<Rightarrow> (nat \<times> nat) set \<Rightarrow> nat list list \<Rightarrow> bool" where
  "zero_inv m n d0 S d \<longleftrightarrow>
     length d = n
     \<and> (\<forall>p < n. length (d ! p) = n)
     \<and> (\<forall>p < n. \<forall>q < n.
           d ! p ! q = (if ((p, q) \<in> S \<or> (q, p) \<in> S) \<and> d0 ! p ! q = m \<and> d0 ! q ! p = m
                        then 0 else d0 ! p ! q))"

section \<open>The evolutionary loop\<close>

text \<open>
  Fitness values of the loop are floating-point scalars. The loop tests them with
  \<open>std::isfinite\<close>, compares them with \<open><\<close> and tests \<open>std::abs(1 - f) < 1e-6\<close>, so a
  scalar is a real number or one of the three special values; comparisons with NaN are
  false.
\<close>

datatype scalar = Finite real | PosInf | NegInf | NaN

fun isfinite :: "scalar \<Rightarrow> bool" where
  "isfinite (Finite x) = True"
| "isfinite PosInf = False"
| "isfinite NegInf = False"
| "isfinite NaN = False"

fun scalar_less :: "scalar \<Rightarrow> scalar \<Rightarrow> bool" where
  "scalar_less (Finite x) (Finite y) = (x < y)"
| "scalar_less (Finite x) PosInf = True"
| "scalar_less NegInf (Finite y) = True"
| "scalar_less NegInf PosInf = True"
| "scalar_less a b = False"

text \<open>
  The literal \<open>1e-6\<close> is the double nearest to \<open>1 / 10\<^sup>6\<close>, a little below it.
\<close>

definition threshold :: real where
  "threshold = 4722366482869645 / 2 ^ 72"

text \<open>
  The test \<open>(Max && std::abs(1 - f) < 1e-6) || (!Max && std::abs(f) < 1e-6)\<close>. The
  difference \<open>1 - f\<close> is exact in floating point whenever \<open>f\<close> lies between \<open>1 / 2\<close>
  and \<open>2\<close>, and is at least \<open>1 / 2\<close> in absolute value otherwise, rounded or not, so
  the test on the real numbers is the test of the source.
\<close>

fun converged :: "bool \<Rightarrow> scalar \<Rightarrow> bool" where
  "converged mx (Finite x) = ((mx \<and> \<bar>1 - x\<bar> < threshold) \<or> (\<not> mx \<and> \<bar>x\<bar> < threshold))"
| "converged mx PosInf = False"
| "converged mx NegInf = False"
| "converged mx NaN = False"

record GeneticAlgorithmConfig =
  PopulationSize :: nat
  Generations :: nat
  CrossoverProbability :: real
  MutationProbability :: real

text \<open>
  What \<open>Run\<close> is instantiated with and calls, none of it among the sources, taken as
  parameters: the constants \<open>SelectableIndex\<close> and \<open>Maximization\<close> of the selector;
  \<open>operon::scalar::min()\<close> and \<open>max()\<close>; the generator type \<open>operon::rand_t\<close> with
  states \<open>'r\<close> (default construction, construction from a seed, a draw); the creator;
  the evaluator, which receives the individual by reference; and the recombinator with
  \<open>Terminate\<close>, \<open>Prepare\<close> and its call operator. \<open>'w\<close> is the state that the evaluator
  and the recombinator keep between calls (evaluation counters, the prepared parents,
  the clock of a time limit).
\<close>

record ('r, 'w) collaborators =
  SelectableIndex :: nat
  Maximization :: bool
  scalar_min :: scalar
  scalar_max :: scalar
  rand_default :: 'r
  rand_seeded :: "nat \<Rightarrow> 'r"
  rand_draw :: "'r \<Rightarrow> nat \<times> 'r"
  creator :: "'r \<Rightarrow> Node list \<times> 'r"
  evaluator :: "'w \<Rightarrow> 'r \<Rightarrow> scalar Individual \<Rightarrow> scalar \<times> scalar Individual \<times> 'w \<times> 'r"
  Terminate :: "'w \<Rightarrow> bool"
  Prepare :: "'w \<Rightarrow> scalar Individual list \<Rightarrow> 'w"
  recombinator :: "'w \<Rightarrow> 'r \<Rightarrow> real \<Rightarrow> real \<Rightarrow> scalar Individual option \<times> 'w \<times> 'r"

text \<open>
  \<open>static constexpr bool Idx = TRecombinator::SelectorType::SelectableIndex\<close>: the
  constant of the selector is converted to \<open>bool\<close>, and \<open>Fitness[Idx]\<close> is slot \<open>0\<close> or
  slot \<open>1\<close>.
\<close>

definition Idx :: "('r, 'w) collaborators \<Rightarrow> nat" where
  "Idx C = (if SelectableIndex C = 0 then 0 else 1)"

text \<open>
  The state that \<open>Run\<close> works on: the members \<open>parents\<close>, \<open>offspring\<close> and \<open>generation\<close>
  of the class; the locals \<open>seeds\<close> and \<open>terminate\<close>; the caller's generator \<open>random\<close>
  (\<open>random_gen\<close>); the \<open>thread_local\<close> generator \<open>rndlocal\<close>, one per thread; the
  collaborators' state; and the generations at which the report callback was invoked.
\<close>

record ('r, 'w) algorithm =
  parents :: "scalar Individual list"
  offspring :: "scalar Individual list"
  generation :: nat
  seeds :: "nat list"
  terminate :: bool
  random_gen :: 'r
  rndlocal :: "nat \<Rightarrow> 'r"
  world :: 'w
  reported :: "nat list"

text \<open>
  Modelled from the spec: the default-constructed individual that the constructor fills
  both buffers with (the individual type is not among the sources): no tree yet, and a
  fitness array of fixed size \<open>d\<close>, value-initialised. Then the constructor.
\<close>

definition default_individual :: "nat \<Rightarrow> scalar Individual" where
  "default_individual d = \<lparr>Genotype = [], Fitness = replicate d (Finite 0)\<rparr>"

definition GeneticProgrammingAlgorithm ::
  "('r, 'w) collaborators \<Rightarrow> GeneticAlgorithmConfig \<Rightarrow> nat \<Rightarrow> 'r \<Rightarrow> 'w \<Rightarrow> ('r, 'w) algorithm" where
  "GeneticProgrammingAlgorithm C config d r w =
     \<lparr>parents = replicate (PopulationSize config) (default_individual d),
      offspring = replicate (PopulationSize config) (default_individual d),
      generation = 0, seeds = [], terminate = False, random_gen = r,
      rndlocal = (\<lambda>t. rand_default C), world = w, reported = []\<rparr>"

text \<open>\<open>const auto worst = Max ? operon::scalar::min() : operon::scalar::max()\<close>.\<close>

definition worst :: "('r, 'w) collaborators \<Rightarrow> scalar" where
  "worst C = (if Maximization C then scalar_min C else scalar_max C)"

text \<open>\<open>std::generate(seeds.begin(), seeds.end(), [&]() { return random(); })\<close>.\<close>

fun generate :: "('r \<Rightarrow> nat \<times> 'r) \<Rightarrow> nat \<Rightarrow> 'r \<Rightarrow> nat list \<times> 'r" where
  "generate draw 0 r = ([], r)"
| "generate draw (Suc k) r =
     (let (x, r1) = draw r; (xs, r2) = generate draw k r1 in (x # xs, r2))"

text \<open>The assignment \<open>ind.Fitness[i] = v\<close>.\<close>

definition set_Fitness :: "scalar Individual \<Rightarrow> nat \<Rightarrow> scalar \<Rightarrow> scalar Individual" where
  "set_Fitness ind i v = ind\<lparr>Fitness := (Fitness ind)[i := v]\<rparr>"

text \<open>
  The lambdas \<open>create\<close> and \<open>evaluate\<close>, run for slot \<open>i\<close> by thread \<open>t\<close>. \<open>create\<close>
  assigns the thread's generator from the slot's seed; \<open>evaluate\<close> uses the thread's
  generator as it finds it.
\<close>

definition create ::
  "('r, 'w) collaborators \<Rightarrow> nat \<Rightarrow> nat \<Rightarrow> ('r, 'w) algorithm \<Rightarrow> ('r, 'w) algorithm" where
  "create C t i s =
     (let (tree, r) = creator C (rand_seeded C (seeds s ! i));
          ind = set_Fitness ((parents s ! i)\<lparr>Genotype := tree\<rparr>) (Idx C) (worst C)
      in s\<lparr>rndlocal := (rndlocal s)(t := r), parents := (parents s)[i := ind]\<rparr>)"

definition evaluate ::
  "('r, 'w) collaborators \<Rightarrow> nat \<Rightarrow> nat \<Rightarrow> ('r, 'w) algorithm \<Rightarrow> ('r, 'w) algorithm" where
  "evaluate C t i s =
     (let (fitness, ind, w, r) = evaluator C (world s) (rndlocal s t) (parents s ! i);
          ind1 = set_Fitness ind (Idx C) (if isfinite fitness then fitness else worst C)
      in s\<lparr>rndlocal := (rndlocal s)(t := r), world := w, parents := (parents s)[i := ind1]\<rparr>)"

text \<open>
  The lambda \<open>iterate\<close>: the generator of the thread is assigned from the slot's seed,
  then \<open>while (!(terminate = recombinator.Terminate()))\<close> asks the recombinator until it
  yields. Nothing in the loop bounds the number of its rounds: a partial function, where
  \<open>None\<close> is a loop that never ends.
\<close>

partial_function (option) iterate_loop ::
  "('r, 'w) collaborators \<Rightarrow> GeneticAlgorithmConfig \<Rightarrow> nat \<Rightarrow> nat \<Rightarrow> ('r, 'w) algorithm
     \<Rightarrow> ('r, 'w) algorithm option" where
  "iterate_loop C config t i s =
     (let s1 = s\<lparr>terminate := Terminate C (world s)\<rparr> in
      if terminate s1 then Some s1
      else (case recombinator C (world s1) (rndlocal s1 t)
                   (CrossoverProbability config) (MutationProbability config) of
              (Some recombinant, w, r) \<Rightarrow>
                Some (s1\<lparr>rndlocal := (rndlocal s1)(t := r), world := w,
                         offspring := (offspring s1)[i := recombinant]\<rparr>)
            | (None, w, r) \<Rightarrow>
                iterate_loop C config t i (s1\<lparr>rndlocal := (rndlocal s1)(t := r), world := w\<rparr>)))"

declare iterate_loop.simps [code]

definition iterate ::
  "('r, 'w) collaborators \<Rightarrow> GeneticAlgorithmConfig \<Rightarrow> nat \<Rightarrow> nat \<Rightarrow> ('r, 'w) algorithm
     \<Rightarrow> ('r, 'w) algorithm option" where
  "iterate C config t i s =
     iterate_loop C config t i (s\<lparr>rndlocal := (rndlocal s)(t := rand_seeded C (seeds s ! i))\<rparr>)"

text \<open>
  \<open>std::for_each(executionPolicy, \<dots>)\<close>. A schedule is the list of the work items of one
  phase in the order in which they run, each with the thread that runs it: a pair
  \<open>(t, i)\<close> is slot \<open>i\<close> on thread \<open>t\<close>. With the sequenced policy the schedule is the
  slots in ascending order on one thread (\<open>sequential\<close>). A work item runs as a whole;
  runs in which two work items overlap in time are not distinguished from one of the two
  orders.
\<close>

fun for_each :: "('x \<Rightarrow> 's \<Rightarrow> 's option) \<Rightarrow> 'x list \<Rightarrow> 's \<Rightarrow> 's option" where
  "for_each f [] s = Some s"
| "for_each f (x # xs) s = (case f x s of None \<Rightarrow> None | Some s1 \<Rightarrow> for_each f xs s1)"

definition sequential :: "nat \<Rightarrow> nat \<Rightarrow> (nat \<times> nat) list" where
  "sequential a b = map (Pair 0) [a..<b]"

text \<open>
  \<open>std::minmax_element\<close>, as the standard specifies it: the first element such that no
  element is smaller, and the last element such that no element is larger. \<open>best\<close> is
  the one or the other. The standard asks for a comparison that is a strict weak ordering
  of the elements, which \<open><\<close> is when every fitness compared is finite; what the call
  returns when a NaN is among them depends on the library, and the definition then
  describes one possible answer only.
\<close>

definition min_index :: "('a \<Rightarrow> 'a \<Rightarrow> bool) \<Rightarrow> 'a list \<Rightarrow> nat" where
  "min_index cmp xs =
     (case find (\<lambda>i. list_all (\<lambda>j. \<not> cmp (xs ! j) (xs ! i)) [0..<length xs]) [0..<length xs] of
        Some i \<Rightarrow> i | None \<Rightarrow> length xs)"

definition max_index :: "('a \<Rightarrow> 'a \<Rightarrow> bool) \<Rightarrow> 'a list \<Rightarrow> nat" where
  "max_index cmp xs =
     (case find (\<lambda>i. list_all (\<lambda>j. \<not> cmp (xs ! i) (xs ! j)) [0..<length xs])
             (rev [0..<length xs]) of
        Some i \<Rightarrow> i | None \<Rightarrow> length xs)"

definition best_index :: "('r, 'w) collaborators \<Rightarrow> scalar Individual list \<Rightarrow> nat" where
  "best_index C ps =
     (let cmp = (\<lambda>lhs rhs. scalar_less (Fitness lhs ! Idx C)
                                        (Fitness rhs ! Idx C))
      in if Maximization C then max_index cmp ps else min_index cmp ps)"


text \<open>The body of the loop that fills empty offspring slots with the parents.\<close>

definition backfill :: "nat \<Rightarrow> ('r, 'w) algorithm \<Rightarrow> ('r, 'w) algorithm" where
  "backfill i s =
     (if Genotype (offspring s ! i) = [] then s\<lparr>offspring := (offspring s)[i := parents s ! i]\<rparr>
      else s)"

text \<open>
  The body of the loop over the generations, for generation \<open>g\<close>. \<open>report\<close> says
  whether the caller supplied a callback; an invocation is recorded in \<open>reported\<close>. The
  result \<open>Inl\<close> is the \<open>return\<close> of \<open>if (terminate)\<close>, \<open>Inr\<close> the state after the swap,
  and \<open>None\<close> a generation that never ends. \<open>sched\<close> is the schedule of the offspring
  phase, which the source runs for the slots \<open>1, \<dots>, n - 1\<close>.
\<close>

definition generation_step ::
  "('r, 'w) collaborators \<Rightarrow> GeneticAlgorithmConfig \<Rightarrow> bool \<Rightarrow> (nat \<times> nat) list \<Rightarrow> nat
     \<Rightarrow> ('r, 'w) algorithm \<Rightarrow> (('r, 'w) algorithm + ('r, 'w) algorithm) option" where
  "generation_step C config report sched g s =
     (let n = PopulationSize config;
          (sd, r) = generate (rand_draw C) n (random_gen s);
          s1 = s\<lparr>generation := g, seeds := sd, random_gen := r\<rparr>;
          best = parents s1 ! best_index C (parents s1);
          s2 = (if converged (Maximization C) (Fitness best ! Idx C)
                then s1\<lparr>terminate := True\<rparr> else s1);
          s3 = (if report then s2\<lparr>reported := reported s2 @ [g]\<rparr> else s2)
      in if terminate s3 then Some (Inl s3)
         else
           (let s4 = s3\<lparr>offspring := (offspring s3)[0 := best]\<rparr>;
                s5 = s4\<lparr>world := Prepare C (world s4) (parents s4)\<rparr>
            in case for_each (\<lambda>(t, i). iterate C config t i) sched s5 of
                 None \<Rightarrow> None
               | Some s6 \<Rightarrow>
                   (let s7 = fold backfill [0..<n] s6
                    in Some (Inr (s7\<lparr>parents := offspring s7, offspring := parents s7\<rparr>)))))"

text \<open>\<open>for (generation = 0; generation < config.Generations; ++generation)\<close>;
  \<open>scheds g\<close> is the schedule of the offspring phase of generation \<open>g\<close>.\<close>

function generations_loop ::
  "('r, 'w) collaborators \<Rightarrow> GeneticAlgorithmConfig \<Rightarrow> bool \<Rightarrow> (nat \<Rightarrow> (nat \<times> nat) list) \<Rightarrow> nat
     \<Rightarrow> ('r, 'w) algorithm \<Rightarrow> ('r, 'w) algorithm option" where
  "generations_loop C config report scheds g s =
     (if g < Generations config then
        (case generation_step C config report (scheds g) g s of
           None \<Rightarrow> None
         | Some (Inl s1) \<Rightarrow> Some s1
         | Some (Inr s1) \<Rightarrow> generations_loop C config report scheds (Suc g) s1)
      else Some (s\<lparr>generation := g\<rparr>))"
  by pat_completeness auto
termination
  by (relation "measure (\<lambda>(C, config, report, scheds, g, s). Generations config - g)") auto

declare generations_loop.simps [simp del]

text \<open>
  \<open>Run\<close>: the seeds, the creation phase with schedule \<open>cs\<close>, the evaluation phase with
  schedule \<open>es\<close> (\<open>initialise\<close>), then the generations.
\<close>

definition initialise ::
  "('r, 'w) collaborators \<Rightarrow> GeneticAlgorithmConfig \<Rightarrow> (nat \<times> nat) list \<Rightarrow> (nat \<times> nat) list
     \<Rightarrow> ('r, 'w) algorithm \<Rightarrow> ('r, 'w) algorithm" where
  "initialise C config cs es s =
     (let (sd, r) = generate (rand_draw C) (PopulationSize config) (random_gen s);
          s1 = s\<lparr>seeds := sd, random_gen := r, terminate := False\<rparr>;
          s2 = fold (\<lambda>(t, i). create C t i) cs s1
      in fold (\<lambda>(t, i). evaluate C t i) es s2)"

definition Run ::
  "('r, 'w) collaborators \<Rightarrow> GeneticAlgorithmConfig \<Rightarrow> bool \<Rightarrow> (nat \<times> nat) list \<Rightarrow> (nat \<times> nat) list
     \<Rightarrow> (nat \<Rightarrow> (nat \<times> nat) list) \<Rightarrow> ('r, 'w) algorithm \<Rightarrow> ('r, 'w) algorithm option" where
  "Run C config report cs es scheds s =
     generations_loop C config report scheds 0 (initialise C config cs es s)"

text \<open>
  The state at the start of generation \<open>g\<close> of a run, its parents being the parents of
  generation \<open>g\<close>; \<open>None\<close> when the run does not get there.
\<close>

fun population_at ::
  "('r, 'w) collaborators \<Rightarrow> GeneticAlgorithmConfig \<Rightarrow> bool \<Rightarrow> (nat \<Rightarrow> (nat \<times> nat) list) \<Rightarrow> nat
     \<Rightarrow> ('r, 'w) algorithm \<Rightarrow> ('r, 'w) algorithm option" where
  "population_at C config report scheds 0 s = Some s"
| "population_at C config report scheds (Suc g) s =
     (case population_at C config report scheds g s of
        None \<Rightarrow> None
      | Some s1 \<Rightarrow>
          (case generation_step C config report (scheds g) g s1 of
             Some (Inr s2) \<Rightarrow> Some s2
           | _ \<Rightarrow> None))"

text \<open>
  Conditions on the collaborators and on the state. The fitness array has a fixed size
  that holds the slot \<open>Idx\<close> (\<open>fixed_size\<close>, \<open>sized\<close>); the creator returns a tree with
  at least one node and the evaluator does not empty a tree (\<open>plants\<close>, \<open>keeps_nodes\<close>);
  both buffers have the population's size and every parent carries a tree (\<open>populated\<close>).
\<close>

definition fixed_size :: "('r, 'w) collaborators \<Rightarrow> bool" where
  "fixed_size C \<longleftrightarrow>
     (\<forall>w r ind. length (Fitness (fst (snd (evaluator C w r ind)))) = length (Fitness ind))"

definition sized :: "('r, 'w) collaborators \<Rightarrow> scalar Individual list \<Rightarrow> bool" where
  "sized C ps \<longleftrightarrow> list_all (\<lambda>p. Idx C < length (Fitness p)) ps"




definition strict_order :: "('a \<Rightarrow> 'a \<Rightarrow> bool) \<Rightarrow> bool" where
  "strict_order cmp \<longleftrightarrow> (\<forall>x. \<not> cmp x x) \<and> (\<forall>x y z. cmp x y \<longrightarrow> cmp y z \<longrightarrow> cmp x z)"

text \<open>
  No termination condition triggers: the recombinator never reports termination and
  yields a candidate whenever it is asked, and no fitness that the evaluator or the
  recombinator produces, nor the worst value, passes the convergence test. \<open>steady\<close> is
  the invariant of such a run.
\<close>

definition unconverged :: "('r, 'w) collaborators \<Rightarrow> scalar Individual \<Rightarrow> bool" where
  "unconverged C ind \<longleftrightarrow> \<not> converged (Maximization C) (Fitness ind ! Idx C)"

definition never_stops :: "('r, 'w) collaborators \<Rightarrow> bool" where
  "never_stops C \<longleftrightarrow>
     (\<forall>w. \<not> Terminate C w)
     \<and> (\<forall>w r pc pm. \<exists>ind w1 r1. recombinator C w r pc pm = (Some ind, w1, r1) \<and> unconverged C ind)
     \<and> (\<forall>w r ind. \<not> converged (Maximization C) (fst (evaluator C w r ind)))
     \<and> \<not> converged (Maximization C) (worst C)"

definition steady :: "('r, 'w) collaborators \<Rightarrow> GeneticAlgorithmConfig \<Rightarrow> ('r, 'w) algorithm \<Rightarrow> bool" where
  "steady C config s \<longleftrightarrow>
     \<not> terminate s
     \<and> 0 < PopulationSize config
     \<and> length (parents s) = PopulationSize config
     \<and> length (offspring s) = PopulationSize config
     \<and> list_all (unconverged C) (parents s)
     \<and> list_all (\<lambda>p. Genotype p = [] \<or> unconverged C p) (offspring s)"

text \<open>
  A condition on the recombinator: whatever it yields has a finite primary fitness.
  \<open>finite_population\<close> is the invariant of the loop under that condition: both buffers
  have the population's size, every parent has a finite primary fitness, and so has
  every offspring slot that carries a tree.
\<close>

definition yields_finite :: "('r, 'w) collaborators \<Rightarrow> bool" where
  "yields_finite C \<longleftrightarrow>
     (\<forall>w r pc pm ind w1 r1.
        recombinator C w r pc pm = (Some ind, w1, r1) \<longrightarrow> isfinite (Fitness ind ! Idx C))"

definition finite_population ::
  "('r, 'w) collaborators \<Rightarrow> GeneticAlgorithmConfig \<Rightarrow> ('r, 'w) algorithm \<Rightarrow> bool" where
  "finite_population C config s \<longleftrightarrow>
     length (parents s) = PopulationSize config
     \<and> length (offspring s) = PopulationSize config
     \<and> list_all (\<lambda>p. isfinite (Fitness p ! Idx C)) (parents s)
     \<and> list_all (\<lambda>p. Genotype p = [] \<or> isfinite (Fitness p ! Idx C)) (offspring s)"




text \<open>
  Collaborators for the worked examples. Generator states are numbers, a draw returns
  the state and increments it; the creator grows a single leaf; the evaluator draws from
  the generator it is handed, returns infinity on an even state and the successor of the
  state otherwise; the recombinator always yields.
\<close>

definition demo_individual :: "real \<Rightarrow> scalar Individual" where
  "demo_individual x = \<lparr>Genotype = [leaf], Fitness = [Finite x]\<rparr>"

definition demo :: "(nat, nat) collaborators" where
  "demo = \<lparr>SelectableIndex = 0, Maximization = False, scalar_min = Finite (- 1000),
     scalar_max = Finite 1000,
     rand_default = 0, rand_seeded = (\<lambda>seed. seed), rand_draw = (\<lambda>r. (r, Suc r)),
     creator = (\<lambda>r. ([leaf], Suc r)),
     evaluator = (\<lambda>w r ind. (if even r then PosInf else Finite (real (Suc r)), ind, Suc w, Suc r)),
     Terminate = (\<lambda>w. False),
     Prepare = (\<lambda>w ps. w),
     recombinator = (\<lambda>w r pc pm. (Some (demo_individual (real (Suc r))), Suc w, Suc r))\<rparr>"

definition demo_config :: "nat \<Rightarrow> nat \<Rightarrow> GeneticAlgorithmConfig" where
  "demo_config n g = \<lparr>PopulationSize = n, Generations = g, CrossoverProbability = 1,
     MutationProbability = 1 / 4\<rparr>"

text \<open>
  The schedule of the examples for the offspring phase of every generation: the slots
  \<open>1, \<dots>, n - 1\<close> in ascending order on one thread. \<open>fitnesses\<close> reads the fitness
  arrays of the parents. \<open>demo_nan\<close> is \<open>demo\<close> maximizing, with a recombinator
  that yields an individual whose fitness is NaN.
\<close>

definition offspring_schedule :: "nat \<Rightarrow> nat \<Rightarrow> (nat \<times> nat) list" where
  "offspring_schedule n g = sequential 1 n"

definition fitnesses :: "('r, 'w) algorithm \<Rightarrow> scalar list list" where
  "fitnesses s = map Fitness (parents s)"

definition demo_nan :: "(nat, nat) collaborators" where
  "demo_nan = demo\<lparr>Maximization := True,
     recombinator := (\<lambda>w r pc pm. (Some \<lparr>Genotype = [leaf], Fitness = [NaN]\<rparr>, Suc w, Suc r))\<rparr>"

section \<open>The grow tree creator\<close>

text \<open>
  Modelled from the spec: the constructor \<open>Node(NodeType)\<close>, which is not among the
  sources. A kind has a fixed arity: two for the arithmetic kinds, the analytic quotient
  and the power, none for constants and variables, one for the others.
\<close>

fun arity_of :: "NodeType \<Rightarrow> nat" where
  "arity_of Add = 2"
| "arity_of Mul = 2"
| "arity_of Sub = 2"
| "arity_of Div = 2"
| "arity_of Aq = 2"
| "arity_of PowN = 2"
| "arity_of Constant = 0"
| "arity_of Variable = 0"
| "arity_of t = 1"

definition Node_of :: "NodeType \<Rightarrow> Node" where
  "Node_of t = \<lparr>Type = t, Arity = arity_of t, Length = 0, HashValue = 0, CalculatedHashValue = 0\<rparr>"

definition IsVariable :: "Node \<Rightarrow> bool" where
  "IsVariable n \<longleftrightarrow> Type n = Variable"

record Variable_info =
  Hash :: nat

text \<open>
  What the creator reads of the grammar: \<open>GetFrequency\<close> and \<open>AllowedSymbols\<close>.
\<close>

record Grammar =
  GetFrequency :: "NodeType \<Rightarrow> real"
  AllowedSymbols :: "(NodeType \<times> real) list"

text \<open>
  The random device is the list of the numbers in \<open>[0, 1)\<close> that it is going to yield;
  a uniform distribution scales the next one to its range (an exhausted device yields
  \<open>0\<close>).
\<close>

type_synonym RandomDevice = "real list"

fun uniform_real_distribution :: "real \<Rightarrow> real \<Rightarrow> RandomDevice \<Rightarrow> real \<times> RandomDevice" where
  "uniform_real_distribution a b [] = (a, [])"
| "uniform_real_distribution a b (u # random) = (a + u * (b - a), random)"

fun uniform_int_distribution :: "nat \<Rightarrow> nat \<Rightarrow> RandomDevice \<Rightarrow> nat \<times> RandomDevice" where
  "uniform_int_distribution a b [] = (a, [])"
| "uniform_int_distribution a b (u # random) = (a + nat \<lfloor>u * real (b - a + 1)\<rfloor>, random)"

text \<open>
  \<open>SampleProportional\<close>. \<open>None\<close>: \<open>partials\<close> is empty or \<open>find_if\<close> returns the end
  iterator, which the source dereferences. The weights, the bound \<open>total - epsilon\<close> and
  the draw are real numbers here. In the source they are doubles: for a total of \<open>2\<close> or
  more the subtraction of \<open>epsilon\<close> rounds back to the total or to its neighbour, and a
  draw that falls next to the boundary between two kinds can select the other kind.
  Draws away from the boundaries select the same kind.
\<close>

definition SampleProportional ::
  "RandomDevice \<Rightarrow> (NodeType \<times> real) list \<Rightarrow> (Node \<times> RandomDevice) option" where
  "SampleProportional random partials =
     (if partials = [] then None
      else (let (r, random1) = uniform_real_distribution 0 (snd (last partials) - 1 / 2 ^ 52) random
            in case find (\<lambda>p. snd p > r) partials of
                 None \<Rightarrow> None
               | Some p \<Rightarrow> Some (Node_of (fst p), random1)))"

text \<open>A loop that runs its body \<open>k\<close> times and stops at the first failure.\<close>

fun repeat :: "nat \<Rightarrow> ('s \<Rightarrow> 's option) \<Rightarrow> 's \<Rightarrow> 's option" where
  "repeat 0 f s = Some s"
| "repeat (Suc k) f s = (case f s of None \<Rightarrow> None | Some s1 \<Rightarrow> repeat k f s1)"

text \<open>
  \<open>Grow\<close>, by recursion on \<open>maxDepth\<close>; the state is the random device and the vector
  \<open>nodes\<close>. The parameters \<open>variables\<close> and \<open>maxLength\<close> are passed on and never read.
\<close>

primrec Grow ::
  "Grammar \<Rightarrow> Variable_info list \<Rightarrow> (NodeType \<times> real) list \<Rightarrow> nat \<Rightarrow> nat
     \<Rightarrow> RandomDevice \<times> Node list \<Rightarrow> (RandomDevice \<times> Node list) option" where
  "Grow grammar variables partials maxLength 0 =
     (\<lambda>(random, nodes).
        let pc = GetFrequency grammar Constant;
            pv = GetFrequency grammar Variable;
            (u, random1) = uniform_real_distribution 0 (pc + pv) random;
            node = (if u < pc then Node_of Constant else Node_of Variable)
        in Some (random1, nodes @ [node]))"
| "Grow grammar variables partials maxLength (Suc maxDepth) =
     (\<lambda>(random, nodes).
        case SampleProportional random partials of
          None \<Rightarrow> None
        | Some (node, random1) \<Rightarrow>
            repeat (Arity node) (Grow grammar variables partials maxLength maxDepth)
              (random1, nodes @ [node]))"

text \<open>\<open>std::inclusive_scan\<close> with the operation of the source: the kind of the right
  operand and the sum of the weights.\<close>

fun inclusive_scan :: "real \<Rightarrow> (NodeType \<times> real) list \<Rightarrow> (NodeType \<times> real) list" where
  "inclusive_scan acc [] = []"
| "inclusive_scan acc ((t, w) # allowed) = (t, acc + w) # inclusive_scan (acc + w) allowed"

text \<open>The loop that gives every variable node the hash of a variable drawn uniformly.\<close>

fun assign_variables ::
  "Variable_info list \<Rightarrow> Node list \<Rightarrow> RandomDevice \<Rightarrow> Node list \<times> RandomDevice" where
  "assign_variables variables [] random = ([], random)"
| "assign_variables variables (node # nodes) random =
     (if IsVariable node then
        (let (k, random1) = uniform_int_distribution 0 (length variables - 1) random;
             h = Hash (variables ! k);
             (rest, random2) = assign_variables variables nodes random1
         in (node\<lparr>HashValue := h, CalculatedHashValue := h\<rparr> # rest, random2))
      else
        (let (rest, random2) = assign_variables variables nodes random
         in (node # rest, random2)))"

text \<open>
  \<open>GrowTreeCreator::operator()\<close> for a creator constructed with \<open>maxDepth\<close> and
  \<open>maxLength\<close>, which are \<open>size_t\<close>: \<open>maxDepth - 1\<close> wraps around at \<open>0\<close>. The result is
  the vector that the tree is built from; \<open>Tree::UpdateNodes\<close>, which is not among the
  sources, fills in the bookkeeping fields of the nodes, and the number of nodes of the
  tree is the length of the vector.
\<close>

definition GrowTreeCreator ::
  "64 word \<Rightarrow> 64 word \<Rightarrow> RandomDevice \<Rightarrow> Grammar \<Rightarrow> Variable_info list \<Rightarrow> Node list option" where
  "GrowTreeCreator maxDepth maxLength random grammar variables =
     (let allowed = AllowedSymbols grammar;
          partials = inclusive_scan 0 allowed
      in case SampleProportional random partials of
           None \<Rightarrow> None
         | Some (root_node, random1) \<Rightarrow>
             (case repeat (Arity root_node)
                     (Grow grammar variables partials (unat maxLength) (unat (maxDepth - 1)))
                     (random1, [root_node]) of
                None \<Rightarrow> None
              | Some (random2, nodes) \<Rightarrow>
                  Some (rev (fst (assign_variables variables nodes random2)))))"

text \<open>A grammar for the worked example: addition, constants and variables, with equal
  weights.\<close>

definition demo_grammar :: Grammar where
  "demo_grammar =
     \<lparr>GetFrequency = (\<lambda>t. if t \<in> {Add, Constant, Variable} then 1 else 0),
      AllowedSymbols = [(Add, 1), (Constant, 1), (Variable, 1)]\<rparr>"

section \<open>Properties of the derivative rules\<close>

lemma length_set_D [simp]: "length (set_D rnodes i k v) = length rnodes"
  by (simp add: set_D_def)

lemma P_set_D [simp]: "P (set_D rnodes i k v ! j) = P (rnodes ! j)"
  by (cases "i < length rnodes"; cases "j = i") (simp_all add: set_D_def list_update_beyond)

lemma D_set_D_same:
  "i < length rnodes \<Longrightarrow> D (set_D rnodes i k v ! i) = (D (rnodes ! i))[k := v]"
  by (simp add: set_D_def)

lemma length_D_set_D [simp]:
  "length (D (set_D rnodes i k v ! j)) = length (D (rnodes ! j))"
  by (cases "i < length rnodes"; cases "j = i") (simp_all add: set_D_def list_update_beyond)

lemma fold_skip_eq:
  "fold (\<lambda>k d. if j = k then d else d * f k) ks (p::'a::times)
     = foldl (*) p (map f (filter (\<lambda>k. k \<noteq> j) ks))"
  by (induction ks arbitrary: p) simp_all

lemma length_Indices [simp]: "length (child_indices nodes j c) = c"
  by (induction c arbitrary: j) simp_all

text \<open>The n-ary loop, one child at a time: later iterations leave earlier columns alone.\<close>

lemma Mul_loop_length:
  "length (fold (\<lambda>(x, j) rn. set_D rn i x (g j (P (rn ! j)))) ps rnodes) = length rnodes"
  by (induction ps arbitrary: rnodes) (simp_all split: prod.splits)

lemma Mul_loop_P:
  "P (fold (\<lambda>(x, j) rn. set_D rn i x (g j (P (rn ! j)))) ps rnodes ! l) = P (rnodes ! l)"
  by (induction ps arbitrary: rnodes) (simp_all split: prod.splits)

lemma Mul_loop_D_other:
  "x \<notin> fst ` set ps \<Longrightarrow> i < length rnodes \<Longrightarrow>
   D (fold (\<lambda>(x, j) rn. set_D rn i x (g j (P (rn ! j)))) ps rnodes ! i) ! x
     = D (rnodes ! i) ! x"
proof (induction ps arbitrary: rnodes)
  case Nil
  then show ?case by simp
next
  case (Cons p ps)
  obtain y j where p: "p = (y, j)" by (cases p)
  from Cons.prems have ne: "y \<noteq> x" and rest: "x \<notin> fst ` set ps"
    by (auto simp: p)
  have "D (fold (\<lambda>(x, j) rn. set_D rn i x (g j (P (rn ! j)))) ps
              (set_D rnodes i y (g j (P (rnodes ! j)))) ! i) ! x
          = D (set_D rnodes i y (g j (P (rnodes ! j))) ! i) ! x"
    using Cons.IH [OF rest] Cons.prems(2) by simp
  also have "\<dots> = D (rnodes ! i) ! x"
    using Cons.prems(2) ne by (simp add: D_set_D_same)
  finally show ?case by (simp add: p)
qed

lemma Mul_loop_D:
  "distinct (map fst ps) \<Longrightarrow> (x, j) \<in> set ps \<Longrightarrow> i < length rnodes \<Longrightarrow>
   x < length (D (rnodes ! i)) \<Longrightarrow>
   D (fold (\<lambda>(x, j) rn. set_D rn i x (g j (P (rn ! j)))) ps rnodes ! i) ! x
     = g j (P (rnodes ! j))"
proof (induction ps arbitrary: rnodes)
  case Nil
  then show ?case by simp
next
  case (Cons p ps)
  obtain y l where p: "p = (y, l)" by (cases p)
  let ?r = "set_D rnodes i y (g l (P (rnodes ! l)))"
  show ?case
  proof (cases "(x, j) = (y, l)")
    case True
    with Cons.prems(1) have "x \<notin> fst ` set ps" by (auto simp: p)
    then have "D (fold (\<lambda>(x, j) rn. set_D rn i x (g j (P (rn ! j)))) ps ?r ! i) ! x
                 = D (?r ! i) ! x"
      using Cons.prems(3) by (intro Mul_loop_D_other) simp_all
    also have "\<dots> = g j (P (rnodes ! j))"
      using True Cons.prems(3,4) by (simp add: D_set_D_same)
    finally show ?thesis by (simp add: p)
  next
    case False
    with Cons.prems(2) have mem: "(x, j) \<in> set ps" by (auto simp: p)
    from Cons.prems(1) have dist: "distinct (map fst ps)" by simp
    have "D (fold (\<lambda>(x, j) rn. set_D rn i x (g j (P (rn ! j)))) ps ?r ! i) ! x
            = g j (P (?r ! j))"
      using Cons.prems(3,4) by (intro Cons.IH [OF dist mem]) simp_all
    then show ?thesis by (simp add: p)
  qed
qed

lemma Enumerate_fst: "map fst (Enumerate nodes i) = [0..<Arity (nodes ! i)]"
  by (simp add: Enumerate_def Indices_def enumerate_eq_zip)

lemma Enumerate_snd: "map snd (Enumerate nodes i) = Indices nodes i"
  by (simp add: Enumerate_def enumerate_eq_zip)

lemma foldl_times_prod_list:
  "foldl (*) p xs = (p::'a::comm_monoid_mult) * prod_list xs"
  by (induction xs arbitrary: p) (simp_all add: mult.assoc)

lemma leaf_fields [simp]: "Arity leaf = 0" "Length leaf = 0"
  by (simp_all add: leaf_def)

lemma inner_fields [simp]: "Arity (inner t a) = a" "Length (inner t a) = a"
  by (simp_all add: inner_def)

text \<open>The n-ary branch of the rule of Mul, for one child.\<close>

lemma Derivative_Mul_nary:
  assumes "i < length rnodes" and "Arity (nodes ! i) \<le> length (D (rnodes ! i))"
    and "Arity (nodes ! i) \<noteq> 2" and "(x, j) \<in> set (Enumerate nodes i)"
  shows "D (Derivative_Mul nodes values rnodes i ! i) ! x
           = foldl (*) (P (rnodes ! j))
               (map ((!) values) (filter (\<lambda>k. k \<noteq> j) (Indices nodes i)))"
proof -
  have dist: "distinct (map fst (Enumerate nodes i))"
    by (simp add: Enumerate_fst)
  from assms(4) have "x \<in> set (map fst (Enumerate nodes i))"
    by force
  then have x: "x < length (D (rnodes ! i))"
    using assms(2) by (simp add: Enumerate_fst)
  have "D (fold (\<lambda>(x, j) rn. set_D rn i x
             ((\<lambda>j p. fold (\<lambda>k d. if j = k then d else d * values ! k) (Indices nodes i) p)
                j (P (rn ! j))))
           (Enumerate nodes i) rnodes ! i) ! x
        = (\<lambda>j p. fold (\<lambda>k d. if j = k then d else d * values ! k) (Indices nodes i) p)
            j (P (rnodes ! j))"
    by (rule Mul_loop_D [OF dist assms(4,1) x])
  then show ?thesis
    using assms(3) by (simp add: Derivative_Mul_def fold_skip_eq)
qed

text \<open>
  Where multiplication is associative and commutative, as for real numbers, the fold is
  \<open>P\<close> times the product of the forward values of the other children.
\<close>

lemma Derivative_Mul_nary_product:
  assumes "i < length rnodes" and "Arity (nodes ! i) \<le> length (D (rnodes ! i))"
    and "Arity (nodes ! i) \<noteq> 2" and "(x, j) \<in> set (Enumerate nodes i)"
  shows "D (Derivative_Mul nodes values rnodes i ! i) ! x
           = (P (rnodes ! j) :: 'a::comm_monoid_mult)
               * prod_list (map ((!) values) (filter (\<lambda>k. k \<noteq> j) (Indices nodes i)))"
  using Derivative_Mul_nary [OF assms] by (simp add: foldl_times_prod_list)

text \<open>
  In a well-formed tree the walk over the children reaches index \<open>0\<close> at the last child
  at the earliest; then the indices of the children descend, they are pairwise distinct,
  and the other children are the children at the other indices.
\<close>

lemma child_indices_descend:
  "k \<in> set (child_indices nodes (j - (Length (nodes ! j) + 1)) c) \<Longrightarrow> 0 < j \<Longrightarrow> k < j"
proof (induction c arbitrary: j k)
  case 0
  then show ?case by simp
next
  case (Suc c)
  let ?j = "j - (Length (nodes ! j) + 1)"
  from Suc.prems(2) have lt: "?j < j" by simp
  from Suc.prems(1) consider "k = ?j" | "k \<in> set (child_indices nodes (?j - (Length (nodes ! ?j) + 1)) c)"
    by auto
  then show ?case
  proof cases
    case 1
    with lt show ?thesis by simp
  next
    case 2
    show ?thesis
    proof (cases "0 < ?j")
      case True
      from Suc.IH [OF 2 True] lt show ?thesis by simp
    next
      case False
      then have z: "?j = 0" by simp
      have "\<And>c. set (child_indices nodes 0 c) \<subseteq> {0}"
      proof -
        fix c show "set (child_indices nodes 0 c) \<subseteq> {0}"
          by (induction c) simp_all
      qed
      with 2 z have "k = 0" by auto
      with Suc.prems(2) show ?thesis by simp
    qed
  qed
qed

lemma child_indices_distinct:
  "(\<forall>m. Suc m < c \<longrightarrow> 0 < child_indices nodes j c ! m) \<Longrightarrow>
   distinct (child_indices nodes j c)"
proof (induction c arbitrary: j)
  case 0
  then show ?case by simp
next
  case (Suc c)
  let ?j = "j - (Length (nodes ! j) + 1)"
  show ?case
  proof (cases c)
    case 0
    then show ?thesis by simp
  next
    case (Suc c0)
    with Suc.prems have j: "0 < j"
      by (auto dest: spec [of _ 0])
    have rest: "\<forall>m. Suc m < c \<longrightarrow> 0 < child_indices nodes ?j c ! m"
    proof (intro allI impI)
      fix m assume "Suc m < c"
      then have "0 < child_indices nodes j (Suc c) ! Suc m"
        using Suc.prems by (auto dest: spec [of _ "Suc m"])
      then show "0 < child_indices nodes ?j c ! m"
        by simp
    qed
    have "j \<notin> set (child_indices nodes ?j c)"
      using child_indices_descend [of j nodes j c] j by auto
    with Suc.IH [OF rest] show ?thesis by simp
  qed
qed

subsection \<open>The closed forms over the real numbers\<close>

text \<open>
  For real columns the closed forms of the rule of Div are \<open>P\<close> times the partial
  derivatives of the quotient: of \<open>v\<^sub>j / v\<^sub>k\<close> in the numerator and in the denominator
  at arity 2, and of the reciprocal at arity 1.
\<close>

lemma quotient_numerator_derivative:
  "vk \<noteq> 0 \<Longrightarrow> ((\<lambda>x. x / vk) has_real_derivative 1 / vk) (at vj)"
  by (auto intro!: derivative_eq_intros)

lemma quotient_denominator_derivative:
  "vk \<noteq> 0 \<Longrightarrow> ((\<lambda>y. vj / y) has_real_derivative - vj / square vk) (at vk)"
  by (auto intro!: derivative_eq_intros simp: square_def)

lemma reciprocal_derivative:
  "v \<noteq> 0 \<Longrightarrow> ((\<lambda>y. 1 / y) has_real_derivative - 1 / square v) (at v)"
  by (auto intro!: derivative_eq_intros simp: square_def)

lemma Div_closed_forms:
  "p / vk = (p :: real) * (1 / vk)"
  "- p * vj / square vk = p * (- vj / square vk)"
  "- p / square v = p * (- 1 / square v)"
  by simp_all

text \<open>
  Claim C1. At a Div node of arity greater than 2 the rule stops with the runtime error
  \<open>derivative of division with more than 2 children is not supported\<close>. At arity 1 it
  returns normally with \<open>D[0] = -P / value\<^sup>2\<close> of the child at \<open>i - 1\<close>; at arity 2 it
  returns normally with the quotient rule in closed form: with \<open>j = i - 1\<close> the first
  child and \<open>k = j - (Length j + 1)\<close> the second, \<open>D[0] = P\<^sub>j / value\<^sub>k\<close> and
  \<open>D[1] = -P\<^sub>k * value\<^sub>j / value\<^sub>k\<^sup>2\<close>.
\<close>

theorem Derivative_Div_arity:
  assumes "i < length rnodes"
  shows "(2 < Arity (nodes ! i) \<longrightarrow>
           Derivative_Div nodes (values :: ('a::{times,inverse,uminus}) list) rnodes i =
             Inl (runtime_error
               ''derivative of division with more than 2 children is not supported''))
       \<and> (Arity (nodes ! i) = 1 \<and> 0 < length (D (rnodes ! i)) \<longrightarrow>
           (\<exists>r. Derivative_Div nodes values rnodes i = Inr r
              \<and> D (r ! i) ! 0 = - P (rnodes ! (i - 1)) / square (values ! (i - 1))))
       \<and> (Arity (nodes ! i) = 2 \<and> 1 < length (D (rnodes ! i)) \<longrightarrow>
           (\<exists>r. Derivative_Div nodes values rnodes i = Inr r
              \<and> D (r ! i) ! 0
                  = P (rnodes ! (i - 1)) / values ! (i - 1 - (Length (nodes ! (i - 1)) + 1))
              \<and> D (r ! i) ! 1
                  = - P (rnodes ! (i - 1 - (Length (nodes ! (i - 1)) + 1))) * values ! (i - 1)
                      / square (values ! (i - 1 - (Length (nodes ! (i - 1)) + 1)))))"
proof (intro conjI impI)
  assume "2 < Arity (nodes ! i)"
  then show "Derivative_Div nodes values rnodes i =
      Inl (runtime_error ''derivative of division with more than 2 children is not supported'')"
    by (simp add: Derivative_Div_def)
next
  assume "Arity (nodes ! i) = 1 \<and> 0 < length (D (rnodes ! i))"
  then show "\<exists>r. Derivative_Div nodes values rnodes i = Inr r
      \<and> D (r ! i) ! 0 = - P (rnodes ! (i - 1)) / square (values ! (i - 1))"
    using assms by (simp add: Derivative_Div_def Let_def D_set_D_same)
next
  assume a: "Arity (nodes ! i) = 2 \<and> 1 < length (D (rnodes ! i))"
  then have ne: "D (rnodes ! i) \<noteq> []"
    by auto
  from a ne show "\<exists>r. Derivative_Div nodes values rnodes i = Inr r
      \<and> D (r ! i) ! 0
          = P (rnodes ! (i - 1)) / values ! (i - 1 - (Length (nodes ! (i - 1)) + 1))
      \<and> D (r ! i) ! 1
          = - P (rnodes ! (i - 1 - (Length (nodes ! (i - 1)) + 1))) * values ! (i - 1)
              / square (values ! (i - 1 - (Length (nodes ! (i - 1)) + 1)))"
    using assms by (simp add: Derivative_Div_def Let_def D_set_D_same)
qed

theorem Derivative_Div_arity_witness:
  "Derivative_Div [leaf, leaf, leaf, inner Div 3] [1, 1, 1, 1 :: real]
       [\<lparr>P = 1, D = []\<rparr>, \<lparr>P = 1, D = []\<rparr>, \<lparr>P = 1, D = []\<rparr>, \<lparr>P = 1, D = [0, 0, 0]\<rparr>] 3
     = Inl (runtime_error ''derivative of division with more than 2 children is not supported'')
   \<and> (\<exists>r. Derivative_Div [leaf, inner Div 1] [2, 1 / 2 :: real]
              [\<lparr>P = 3, D = []\<rparr>, \<lparr>P = 1, D = [0]\<rparr>] 1 = Inr r
          \<and> D (r ! 1) ! 0 = - 3 / 4)
   \<and> (\<exists>r. Derivative_Div [leaf, leaf, inner Div 2] [4, 3, 3 / 4 :: real]
              [\<lparr>P = 5, D = []\<rparr>, \<lparr>P = 2, D = []\<rparr>, \<lparr>P = 1, D = [0, 0]\<rparr>] 2 = Inr r
          \<and> D (r ! 2) ! 0 = 1 / 2 \<and> D (r ! 2) ! 1 = - 15 / 16)"
  using
    Derivative_Div_arity [of 3 "[\<lparr>P = 1, D = []\<rparr>, \<lparr>P = 1, D = []\<rparr>, \<lparr>P = 1, D = []\<rparr>,
        \<lparr>P = 1, D = [0, 0, 0]\<rparr>]" "[leaf, leaf, leaf, inner Div 3]" "[1, 1, 1, 1 :: real]"]
    Derivative_Div_arity [of 1 "[\<lparr>P = 3, D = []\<rparr>, \<lparr>P = 1, D = [0]\<rparr>]"
        "[leaf, inner Div 1]" "[2, 1 / 2 :: real]"]
    Derivative_Div_arity [of 2 "[\<lparr>P = 5, D = []\<rparr>, \<lparr>P = 2, D = []\<rparr>, \<lparr>P = 1, D = [0, 0]\<rparr>]"
        "[leaf, leaf, inner Div 2]" "[4, 3, 3 / 4 :: real]"]
  by (simp add: square_def)

text \<open>
  Claim C4, amended. The rule of Mul computes each column of \<open>D\<close> from the cached
  forward values and from the \<open>P\<close> column of the child that the column belongs to: there
  is one \<open>P\<close> for each child, not one for the node. At arity 2, with
  \<open>j = i - 1\<close> the first child and \<open>k = j - (Length j + 1)\<close> the second,
  \<open>D[0] = P\<^sub>j * value\<^sub>k\<close> and \<open>D[1] = P\<^sub>k * value\<^sub>j\<close>. At any other arity, for the
  child at position \<open>x\<close> with index \<open>j\<close>, \<open>D[x]\<close> is \<open>P\<^sub>j\<close> multiplied, from left to right,
  by the forward values of all the other children.
\<close>

theorem Derivative_Mul_children:
  assumes "i < length rnodes" and "Arity (nodes ! i) \<le> length (D (rnodes ! i))"
  shows "(Arity (nodes ! i) = 2 \<longrightarrow>
            D (Derivative_Mul nodes values rnodes i ! i) ! 0
              = P (rnodes ! (i - 1)) * values ! (i - 1 - (Length (nodes ! (i - 1)) + 1))
          \<and> D (Derivative_Mul nodes values rnodes i ! i) ! 1
              = P (rnodes ! (i - 1 - (Length (nodes ! (i - 1)) + 1))) * values ! (i - 1))
       \<and> (Arity (nodes ! i) \<noteq> 2 \<longrightarrow>
            (\<forall>(x, j) \<in> set (Enumerate nodes i).
               D (Derivative_Mul nodes values rnodes i ! i) ! x
                 = foldl (*) (P (rnodes ! j))
                     (map ((!) values) (filter (\<lambda>k. k \<noteq> j) (Indices nodes i)))))"
proof (intro conjI impI)
  assume a: "Arity (nodes ! i) = 2"
  with assms(2) have ne: "D (rnodes ! i) \<noteq> []" and l1: "Suc 0 < length (D (rnodes ! i))"
    by auto
  from a assms ne show "D (Derivative_Mul nodes values rnodes i ! i) ! 0
      = P (rnodes ! (i - 1)) * values ! (i - 1 - (Length (nodes ! (i - 1)) + 1))"
    by (simp add: Derivative_Mul_def Let_def D_set_D_same)
  from a assms l1 show "D (Derivative_Mul nodes values rnodes i ! i) ! 1
      = P (rnodes ! (i - 1 - (Length (nodes ! (i - 1)) + 1))) * values ! (i - 1)"
    by (simp add: Derivative_Mul_def Let_def D_set_D_same)
next
  assume a: "Arity (nodes ! i) \<noteq> 2"
  show "\<forall>(x, j) \<in> set (Enumerate nodes i).
      D (Derivative_Mul nodes values rnodes i ! i) ! x
        = foldl (*) (P (rnodes ! j))
            (map ((!) values) (filter (\<lambda>k. k \<noteq> j) (Indices nodes i)))"
    using Derivative_Mul_nary [OF assms a] by blast
qed

theorem Derivative_Mul_children_witness:
  "(let r = Derivative_Mul [leaf, leaf, inner Mul 2] [4, 3, 12 :: int]
        [\<lparr>P = 5, D = []\<rparr>, \<lparr>P = 2, D = []\<rparr>, \<lparr>P = 1, D = [0, 0]\<rparr>] 2
    in D (r ! 2) ! 0 = 2 * 4 \<and> D (r ! 2) ! 1 = 5 * 3)
   \<and> (let r = Derivative_Mul [leaf, leaf, leaf, inner Mul 3] [2, 3, 5, 30 :: int]
        [\<lparr>P = 7, D = []\<rparr>, \<lparr>P = 11, D = []\<rparr>, \<lparr>P = 13, D = []\<rparr>, \<lparr>P = 1, D = [0, 0, 0]\<rparr>] 3
    in D (r ! 3) ! 0 = 13 * 3 * 2 \<and> D (r ! 3) ! 1 = 11 * 5 * 2 \<and> D (r ! 3) ! 2 = 7 * 5 * 3)"
proof -
  have ind: "Indices [leaf, leaf, leaf, inner Mul 3] 3 = [2, 1, 0]"
    by code_simp
  have enum: "Enumerate [leaf, leaf, leaf, inner Mul 3] 3 = [(0, 2), (1, 1), (2, 0)]"
    by code_simp
  show ?thesis
    using
      Derivative_Mul_children [of 2 "[\<lparr>P = 5, D = []\<rparr>, \<lparr>P = 2, D = []\<rparr>, \<lparr>P = 1, D = [0, 0]\<rparr>]"
        "[leaf, leaf, inner Mul 2]" "[4, 3, 12 :: int]"]
      Derivative_Mul_children [of 3 "[\<lparr>P = 7, D = []\<rparr>, \<lparr>P = 11, D = []\<rparr>, \<lparr>P = 13, D = []\<rparr>,
        \<lparr>P = 1, D = [0, 0, 0]\<rparr>]" "[leaf, leaf, leaf, inner Mul 3]" "[2, 3, 5, 30 :: int]"]
    by (simp add: enum ind Let_def)
qed

text \<open>
  The claim C4 as it was stated has one \<open>P\<close>, the adjoint accumulated at the node, in
  both columns: \<open>D[0] = P * value\<close> of the right child and \<open>D[1] = P * value\<close> of the
  left child. For the product of two leaves with the values \<open>3\<close> and \<open>4\<close>, whose \<open>P\<close>
  columns are \<open>2\<close> and \<open>5\<close>, the rule stores \<open>8\<close> and \<open>15\<close>, whether the \<open>P\<close> column of
  the node is \<open>1\<close> or \<open>100\<close>: that is not \<open>1 * 4\<close> and \<open>1 * 3\<close>, and the quotients
  \<open>D[0] / 4\<close> and \<open>D[1] / 3\<close> differ, so that no \<open>P\<close> at all fits both columns.
\<close>

theorem Derivative_Mul_single_P_counterexample:
  "D (Derivative_Mul [leaf, leaf, inner Mul 2] [4, 3, 12 :: real]
        [\<lparr>P = 5, D = []\<rparr>, \<lparr>P = 2, D = []\<rparr>, \<lparr>P = 1, D = [0, 0]\<rparr>] 2 ! 2) = [8, 15]
   \<and> D (Derivative_Mul [leaf, leaf, inner Mul 2] [4, 3, 12 :: real]
        [\<lparr>P = 5, D = []\<rparr>, \<lparr>P = 2, D = []\<rparr>, \<lparr>P = 100, D = [0, 0]\<rparr>] 2 ! 2) = [8, 15]
   \<and> D (Derivative_Mul [leaf, leaf, inner Mul 2] [4, 3, 12 :: real]
        [\<lparr>P = 5, D = []\<rparr>, \<lparr>P = 2, D = []\<rparr>, \<lparr>P = 1, D = [0, 0]\<rparr>] 2 ! 2)
       \<noteq> [P ([\<lparr>P = 5, D = []\<rparr>, \<lparr>P = 2, D = []\<rparr>, \<lparr>P = 1, D = [0, 0 :: real]\<rparr>] ! 2)
             * [4, 3, 12] ! 0,
           P ([\<lparr>P = 5, D = []\<rparr>, \<lparr>P = 2, D = []\<rparr>, \<lparr>P = 1, D = [0, 0 :: real]\<rparr>] ! 2)
             * [4, 3, 12] ! 1]
   \<and> D (Derivative_Mul [leaf, leaf, inner Mul 2] [4, 3, 12 :: real]
        [\<lparr>P = 5, D = []\<rparr>, \<lparr>P = 2, D = []\<rparr>, \<lparr>P = 1, D = [0, 0]\<rparr>] 2 ! 2) ! 0 / [4, 3, 12] ! 0
       \<noteq> D (Derivative_Mul [leaf, leaf, inner Mul 2] [4, 3, 12 :: real]
        [\<lparr>P = 5, D = []\<rparr>, \<lparr>P = 2, D = []\<rparr>, \<lparr>P = 1, D = [0, 0]\<rparr>] 2 ! 2) ! 1 / [4, 3, 12] ! 1"
  by (simp add: Derivative_Mul_def set_D_def Let_def)

section \<open>Properties of the sorter\<close>

subsection \<open>The comparison matrix of one objective\<close>

lemma row_fill:
  "r < length c \<Longrightarrow>
   fold (\<lambda>j c. c[r := (c ! r)[b ! j := v]]) js c
     = c[r := fold (\<lambda>j row. row[b ! j := v]) js (c ! r)]"
  by (induction js arbitrary: c) simp_all

lemma fill_length [simp]:
  "length (fold (\<lambda>j row. row[b ! j := v]) js row) = length row"
  by (induction js arbitrary: row) simp_all

lemma fill_nth:
  "q < length row \<Longrightarrow>
   fold (\<lambda>j row. row[b ! j := v]) js row ! q
     = (if q \<in> (\<lambda>j. b ! j) ` set js then v else row ! q)"
  by (induction js arbitrary: row) (auto simp: nth_list_update)

lemma sorted_column_length: "sorted_column pop colIdx b \<Longrightarrow> length b = length pop"
  unfolding sorted_column_def by (metis distinct_card distinct_upt length_upt diff_zero)

lemma sorted_column_nth_less:
  "sorted_column pop colIdx b \<Longrightarrow> i < length pop \<Longrightarrow> b ! i < length pop"
  using sorted_column_length [of pop colIdx b] unfolding sorted_column_def
  by (metis atLeastLessThan_iff nth_mem set_upt)

lemma sorted_column_inj:
  "sorted_column pop colIdx b \<Longrightarrow> i < length pop \<Longrightarrow> j < length pop \<Longrightarrow>
   b ! i = b ! j \<longleftrightarrow> i = j"
  using sorted_column_length [of pop colIdx b] unfolding sorted_column_def
  by (metis nth_eq_iff_index_eq)

lemma sorted_column_surj:
  "sorted_column pop colIdx b \<Longrightarrow> q < length pop \<Longrightarrow> \<exists>j < length pop. b ! j = q"
  using sorted_column_length [of pop colIdx b] unfolding sorted_column_def
  by (metis atLeastLessThan_iff in_set_conv_nth set_upt zero_le)

lemma sorted_column_mono:
  assumes "sorted_column pop colIdx b" and "i \<le> j" and "j < length pop"
  shows "objective pop (b ! i) colIdx \<le> objective pop (b ! j) colIdx"
proof -
  have len: "length b = length pop"
    using assms(1) by (rule sorted_column_length)
  have "sorted (map (\<lambda>a. objective pop a colIdx) b)"
    using assms(1) by (simp add: sorted_column_def)
  then have "map (\<lambda>a. objective pop a colIdx) b ! i \<le> map (\<lambda>a. objective pop a colIdx) b ! j"
    using assms(2,3) len by (intro sorted_nth_mono) simp_all
  then show ?thesis
    using assms(2,3) len by simp
qed

lemma ComputeComparisonMatrix_step:
  "ComputeComparisonMatrix pop idx colIdx =
     fold (comparison_step pop colIdx (idx ! colIdx)) [1..<length pop]
       ((replicate (length pop) (replicate (length pop) 0))
          [idx ! colIdx ! 0 := replicate (length pop) 1])"
  unfolding ComputeComparisonMatrix_def Let_def ..

lemma comparison_inv_init:
  assumes sc: "sorted_column pop colIdx b" and n: "0 < length pop"
  shows "comparison_inv pop colIdx b 1
           ((replicate (length pop) (replicate (length pop) 0))[b ! 0 := replicate (length pop) 1])"
proof -
  let ?n = "length pop"
  let ?c = "(replicate ?n (replicate ?n (0::nat)))[b ! 0 := replicate ?n 1]"
  have b0: "b ! 0 < ?n"
    using sc n by (rule sorted_column_nth_less)
  have rows: "\<forall>r < ?n. length (?c ! r) = ?n"
    using b0 by (auto simp: nth_list_update)
  have first: "\<forall>q < ?n. ?c ! (b ! 0) ! q
      = (if objective pop (b ! 0) colIdx \<le> objective pop q colIdx then 1 else 0)"
  proof (intro allI impI)
    fix q assume q: "q < ?n"
    obtain j where j: "j < ?n" "b ! j = q"
      using sorted_column_surj [OF sc q] by blast
    have "objective pop (b ! 0) colIdx \<le> objective pop (b ! j) colIdx"
      using sc _ j(1) by (rule sorted_column_mono) simp
    then show "?c ! (b ! 0) ! q
        = (if objective pop (b ! 0) colIdx \<le> objective pop q colIdx then 1 else 0)"
      using b0 q j(2) by simp
  qed
  have rest: "\<forall>i. 1 \<le> i \<and> i < ?n \<longrightarrow> ?c ! (b ! i) = replicate ?n 0"
  proof (intro allI impI)
    fix i assume i: "1 \<le> i \<and> i < ?n"
    then have "b ! i \<noteq> b ! 0"
      using sorted_column_inj [OF sc, of i 0] n by simp
    moreover have "b ! i < ?n"
      using sc i by (intro sorted_column_nth_less) simp_all
    ultimately show "?c ! (b ! i) = replicate ?n 0"
      by simp
  qed
  show ?thesis
    unfolding comparison_inv_def using rows first rest by simp
qed

lemma comparison_inv_step:
  assumes sc: "sorted_column pop colIdx b"
    and k: "1 \<le> k" "k < length pop"
    and inv: "comparison_inv pop colIdx b k c"
  shows "comparison_inv pop colIdx b (Suc k) (comparison_step pop colIdx b k c)"
proof -
  let ?n = "length pop"
  let ?f = "\<lambda>a. objective pop a colIdx"
  let ?c' = "comparison_step pop colIdx b k c"
  from inv have len: "length c = ?n"
    and rows: "\<And>r. r < ?n \<Longrightarrow> length (c ! r) = ?n"
    and seen: "\<And>i q. i < k \<Longrightarrow> q < ?n \<Longrightarrow>
        c ! (b ! i) ! q = (if ?f (b ! i) \<le> ?f q then 1 else 0)"
    and rest: "\<And>i. k \<le> i \<Longrightarrow> i < ?n \<Longrightarrow> c ! (b ! i) = replicate ?n 0"
    unfolding comparison_inv_def by blast+
  have bk: "b ! k < ?n"
    using sc k(2) by (rule sorted_column_nth_less)
  have other: "\<And>i. i < ?n \<Longrightarrow> i \<noteq> k \<Longrightarrow> b ! i \<noteq> b ! k"
    using sorted_column_inj [OF sc _ k(2)] by blast
  \<comment> \<open>the new row\<close>
  have row: "\<forall>q < ?n. ?c' ! (b ! k) ! q = (if ?f (b ! k) \<le> ?f q then 1 else 0)"
  proof (cases "?f (b ! k) = ?f (b ! (k - 1))")
    case True
    then have "?c' ! (b ! k) = c ! (b ! (k - 1))"
      using bk len by (simp add: comparison_step_def)
    moreover have "\<forall>q < ?n. c ! (b ! (k - 1)) ! q = (if ?f (b ! (k - 1)) \<le> ?f q then 1 else 0)"
      using seen [of "k - 1"] k(1) by simp
    ultimately show ?thesis
      using True by simp
  next
    case False
    have "?f (b ! (k - 1)) \<le> ?f (b ! k)"
      using sc _ k(2) by (rule sorted_column_mono) simp
    with False have lt: "?f (b ! (k - 1)) < ?f (b ! k)"
      by simp
    have c': "?c' = c[b ! k := fold (\<lambda>j row. row[b ! j := 1]) [k..<?n] (c ! (b ! k))]"
      using False bk len by (simp add: comparison_step_def row_fill)
    have zero: "c ! (b ! k) = replicate ?n 0"
      using rest [of k] k(2) by simp
    show ?thesis
    proof (intro allI impI)
      fix q assume q: "q < ?n"
      obtain j where j: "j < ?n" "b ! j = q"
        using sorted_column_surj [OF sc q] by blast
      have mem: "q \<in> (\<lambda>j. b ! j) ` set [k..<?n] \<longleftrightarrow> k \<le> j"
      proof
        assume "q \<in> (\<lambda>j. b ! j) ` set [k..<?n]"
        then obtain j' where j': "k \<le> j'" "j' < ?n" "b ! j' = q"
          by auto
        then have "j' = j"
          using sorted_column_inj [OF sc j'(2) j(1)] j(2) by simp
        with j'(1) show "k \<le> j" by simp
      next
        assume "k \<le> j"
        then show "q \<in> (\<lambda>j. b ! j) ` set [k..<?n]"
          using j by auto
      qed
      have ord: "?f (b ! k) \<le> ?f q \<longleftrightarrow> k \<le> j"
      proof
        assume le: "?f (b ! k) \<le> ?f q"
        show "k \<le> j"
        proof (rule ccontr)
          assume "\<not> k \<le> j"
          then have "j \<le> k - 1" by simp
          then have "?f (b ! j) \<le> ?f (b ! (k - 1))"
            using sc k(2) by (intro sorted_column_mono) simp_all
          with lt le j(2) show False by simp
        qed
      next
        assume "k \<le> j"
        then have "?f (b ! k) \<le> ?f (b ! j)"
          using sc j(1) by (intro sorted_column_mono) simp_all
        then show "?f (b ! k) \<le> ?f q"
          using j(2) by simp
      qed
      have "?c' ! (b ! k) ! q = fold (\<lambda>j row. row[b ! j := 1]) [k..<?n] (replicate ?n 0) ! q"
        using bk len by (simp add: c' zero)
      also have "\<dots> = (if q \<in> (\<lambda>j. b ! j) ` set [k..<?n] then 1 else replicate ?n 0 ! q)"
        using q by (intro fill_nth) simp
      also have "\<dots> = (if ?f (b ! k) \<le> ?f q then 1 else 0)"
        using q by (simp only: mem ord nth_replicate)
      finally show "?c' ! (b ! k) ! q = (if ?f (b ! k) \<le> ?f q then 1 else 0)" .
    qed
  qed
  \<comment> \<open>the other rows are left alone\<close>
  have upd: "\<exists>v. length v = ?n \<and> ?c' = c[b ! k := v]"
  proof (cases "?f (b ! k) = ?f (b ! (k - 1))")
    case True
    have "b ! (k - 1) < ?n"
      using sc k(2) by (intro sorted_column_nth_less) simp_all
    then have "length (c ! (b ! (k - 1))) = ?n"
      by (rule rows)
    then show ?thesis
      using True by (auto simp: comparison_step_def)
  next
    case False
    then have "?c' = c[b ! k := fold (\<lambda>j row. row[b ! j := 1]) [k..<?n] (c ! (b ! k))]"
      using bk len by (simp add: comparison_step_def row_fill)
    moreover have "length (fold (\<lambda>j row. row[b ! j := 1]) [k..<?n] (c ! (b ! k))) = ?n"
      using rows [OF bk] by simp
    ultimately show ?thesis by blast
  qed
  then obtain v where v: "length v = ?n" "?c' = c[b ! k := v]"
    by blast
  have keep: "\<And>r. r \<noteq> b ! k \<Longrightarrow> ?c' ! r = c ! r"
    by (simp add: v(2))
  have len': "length ?c' = ?n"
    by (simp add: v(2) len)
  have rows': "\<forall>r < ?n. length (?c' ! r) = ?n"
    using rows v(1) len bk by (auto simp: v(2) nth_list_update)
  have seen': "\<forall>i < Suc k. \<forall>q < ?n.
      ?c' ! (b ! i) ! q = (if ?f (b ! i) \<le> ?f q then 1 else 0)"
  proof (intro allI impI)
    fix i q assume i: "i < Suc k" and q: "q < ?n"
    show "?c' ! (b ! i) ! q = (if ?f (b ! i) \<le> ?f q then 1 else 0)"
    proof (cases "i = k")
      case True
      then show ?thesis using row q by simp
    next
      case False
      with i have ik: "i < k" by simp
      then have "b ! i \<noteq> b ! k"
        using other [of i] k(2) by simp
      then have "?c' ! (b ! i) = c ! (b ! i)"
        by (rule keep)
      then show ?thesis
        using seen [OF ik q] by simp
    qed
  qed
  have rest': "\<forall>i. Suc k \<le> i \<and> i < ?n \<longrightarrow> ?c' ! (b ! i) = replicate ?n 0"
  proof (intro allI impI)
    fix i assume i: "Suc k \<le> i \<and> i < ?n"
    then have "b ! i \<noteq> b ! k"
      using other [of i] by simp
    then have "?c' ! (b ! i) = c ! (b ! i)"
      by (rule keep)
    then show "?c' ! (b ! i) = replicate ?n 0"
      using rest [of i] i by simp
  qed
  show ?thesis
    unfolding comparison_inv_def using len' rows' seen' rest' by blast
qed

lemma comparison_inv_loop:
  assumes sc: "sorted_column pop colIdx b" and k: "1 \<le> k" "k \<le> length pop"
  shows "comparison_inv pop colIdx b k
           (fold (comparison_step pop colIdx b) [1..<k]
              ((replicate (length pop) (replicate (length pop) 0))
                 [b ! 0 := replicate (length pop) 1]))"
  using k
proof (induction k rule: dec_induct)
  case base
  then have "0 < length pop"
    by linarith
  then have "comparison_inv pop colIdx b 1
      ((replicate (length pop) (replicate (length pop) 0))[b ! 0 := replicate (length pop) 1])"
    by (rule comparison_inv_init [OF sc])
  then show ?case
    by simp
next
  case (step k)
  then have "comparison_inv pop colIdx b k
      (fold (comparison_step pop colIdx b) [1..<k]
         ((replicate (length pop) (replicate (length pop) 0))
            [b ! 0 := replicate (length pop) 1]))"
    by simp
  then have "comparison_inv pop colIdx b (Suc k)
      (comparison_step pop colIdx b k
        (fold (comparison_step pop colIdx b) [1..<k]
           ((replicate (length pop) (replicate (length pop) 0))
              [b ! 0 := replicate (length pop) 1])))"
    using step.hyps step.prems by (intro comparison_inv_step [OF sc]) simp_all
  then show ?case
    using step.hyps by simp
qed

lemma ComputeComparisonMatrix_nth:
  assumes sc: "sorted_column pop colIdx (idx ! colIdx)"
    and p: "p < length pop" and q: "q < length pop"
  shows "ComputeComparisonMatrix pop idx colIdx ! p ! q
           = (if objective pop p colIdx \<le> objective pop q colIdx then 1 else 0)"
proof -
  have n: "1 \<le> length pop" using p by simp
  have inv: "comparison_inv pop colIdx (idx ! colIdx) (length pop)
               (ComputeComparisonMatrix pop idx colIdx)"
    unfolding ComputeComparisonMatrix_step
    by (rule comparison_inv_loop [OF sc n]) simp
  obtain i where i: "i < length pop" "idx ! colIdx ! i = p"
    using sorted_column_surj [OF sc p] by blast
  show ?thesis
    using inv i q unfolding comparison_inv_def by blast
qed

lemma ComputeComparisonMatrix_length:
  assumes sc: "sorted_column pop colIdx (idx ! colIdx)" and n: "0 < length pop"
  shows "length (ComputeComparisonMatrix pop idx colIdx) = length pop"
    and "p < length pop \<Longrightarrow> length (ComputeComparisonMatrix pop idx colIdx ! p) = length pop"
proof -
  have n1: "1 \<le> length pop" using n by linarith
  have inv: "comparison_inv pop colIdx (idx ! colIdx) (length pop)
               (ComputeComparisonMatrix pop idx colIdx)"
    unfolding ComputeComparisonMatrix_step
    by (rule comparison_inv_loop [OF sc n1]) simp
  show "length (ComputeComparisonMatrix pop idx colIdx) = length pop"
    using inv unfolding comparison_inv_def by blast
  show "p < length pop \<Longrightarrow> length (ComputeComparisonMatrix pop idx colIdx ! p) = length pop"
    using inv unfolding comparison_inv_def by blast
qed

lemma sorted_idx_column:
  "sorted_idx pop idx \<Longrightarrow> c < length (Fitness (hd pop)) \<Longrightarrow> sorted_column pop c (idx ! c)"
  by (simp add: sorted_idx_def list_all_iff)

lemma sorted_idx_length: "sorted_idx pop idx \<Longrightarrow> length idx = length (Fitness (hd pop))"
  by (simp add: sorted_idx_def)

subsection \<open>The sum of the comparison matrices\<close>

lemma mat_add_length:
  "length d = n \<Longrightarrow> length c = n \<Longrightarrow> length (mat_add d c) = n"
  by (simp add: mat_add_def)

lemma mat_add_row_length:
  "p < length d \<Longrightarrow> p < length c \<Longrightarrow> length (d ! p) = n \<Longrightarrow> length (c ! p) = n \<Longrightarrow>
   length (mat_add d c ! p) = n"
  by (simp add: mat_add_def)

lemma mat_add_nth:
  "p < length d \<Longrightarrow> p < length c \<Longrightarrow> q < length (d ! p) \<Longrightarrow> q < length (c ! p) \<Longrightarrow>
   mat_add d c ! p ! q = d ! p ! q + c ! p ! q"
  by (simp add: mat_add_def)

lemma sum_inv_loop:
  assumes si: "sorted_idx pop idx" and n: "0 < length pop"
    and k: "1 \<le> k" "k \<le> length idx"
  shows "sum_inv pop k
           (fold (\<lambda>i d. mat_add d (ComputeComparisonMatrix pop idx i)) [1..<k]
              (ComputeComparisonMatrix pop idx 0))"
  using k
proof (induction k rule: dec_induct)
  case base
  then have "0 < length (Fitness (hd pop))"
    using sorted_idx_length [OF si] by linarith
  then have sc: "sorted_column pop 0 (idx ! 0)"
    by (rule sorted_idx_column [OF si])
  show ?case
    unfolding sum_inv_def
    using ComputeComparisonMatrix_length [OF sc n] ComputeComparisonMatrix_nth [OF sc]
    by simp
next
  case (step k)
  let ?d = "fold (\<lambda>i d. mat_add d (ComputeComparisonMatrix pop idx i)) [1..<k]
              (ComputeComparisonMatrix pop idx 0)"
  let ?c = "ComputeComparisonMatrix pop idx k"
  from step have inv: "sum_inv pop k ?d"
    by simp
  from step.prems have "k < length (Fitness (hd pop))"
    using sorted_idx_length [OF si] by linarith
  then have sc: "sorted_column pop k (idx ! k)"
    by (rule sorted_idx_column [OF si])
  have clen: "length ?c = length pop" "\<And>p. p < length pop \<Longrightarrow> length (?c ! p) = length pop"
    using ComputeComparisonMatrix_length [OF sc n] by blast+
  have dlen: "length ?d = length pop" "\<And>p. p < length pop \<Longrightarrow> length (?d ! p) = length pop"
    using inv unfolding sum_inv_def by blast+
  have cell: "\<And>p q. p < length pop \<Longrightarrow> q < length pop \<Longrightarrow>
      ?d ! p ! q = length (filter (\<lambda>c. objective pop p c \<le> objective pop q c) [0..<k])"
    using inv unfolding sum_inv_def by blast
  have "sum_inv pop (Suc k) (mat_add ?d ?c)"
    unfolding sum_inv_def
  proof (intro conjI allI impI)
    show "length (mat_add ?d ?c) = length pop"
      using dlen(1) clen(1) by (rule mat_add_length)
  next
    fix p assume p: "p < length pop"
    show "length (mat_add ?d ?c ! p) = length pop"
      using p dlen clen by (intro mat_add_row_length) simp_all
  next
    fix p q assume p: "p < length pop" and q: "q < length pop"
    have "mat_add ?d ?c ! p ! q = ?d ! p ! q + ?c ! p ! q"
      using p q dlen clen by (intro mat_add_nth) simp_all
    also have "\<dots> = length (filter (\<lambda>c. objective pop p c \<le> objective pop q c) [0..<k])
        + (if objective pop p k \<le> objective pop q k then 1 else 0)"
      using cell [OF p q] ComputeComparisonMatrix_nth [OF sc p q] by simp
    also have "\<dots> = length (filter (\<lambda>c. objective pop p c \<le> objective pop q c) [0..<Suc k])"
      by simp
    finally show "mat_add ?d ?c ! p ! q
        = length (filter (\<lambda>c. objective pop p c \<le> objective pop q c) [0..<Suc k])" .
  qed
  then show ?case
    using step.hyps by simp
qed

lemma ComparisonMatrixSum_inv:
  assumes si: "sorted_idx pop idx" and n: "0 < length pop" and m: "0 < length (Fitness (hd pop))"
  shows "sum_inv pop (length (Fitness (hd pop))) (ComparisonMatrixSum pop idx)"
proof -
  have "1 \<le> length idx"
    using m sorted_idx_length [OF si] by linarith
  then have "sum_inv pop (length idx) (ComparisonMatrixSum pop idx)"
    unfolding ComparisonMatrixSum_def by (intro sum_inv_loop [OF si n]) simp_all
  then show ?thesis
    by (simp add: sorted_idx_length [OF si])
qed

lemma ComparisonMatrixSum_nth:
  assumes "sorted_idx pop idx" and "0 < length (Fitness (hd pop))"
    and "p < length pop" and "q < length pop"
  shows "ComparisonMatrixSum pop idx ! p ! q = no_worse_count pop p q"
proof -
  have "0 < length pop" using assms(3) by linarith
  then have "sum_inv pop (length (Fitness (hd pop))) (ComparisonMatrixSum pop idx)"
    using assms(1,2) by (intro ComparisonMatrixSum_inv)
  then show ?thesis
    using assms(3,4) unfolding sum_inv_def no_worse_count_def by blast
qed

subsection \<open>Zeroing the symmetric pairs\<close>

lemma zero_pair_length [simp]: "length (zero_pair m i j d) = length d"
  by (simp add: zero_pair_def Let_def)

lemma zero_pair_row_length [simp]: "length (zero_pair m i j d ! p) = length (d ! p)"
  by (cases "i < length d"; cases "j < length d")
     (auto simp: zero_pair_def Let_def nth_list_update list_update_beyond)

lemma zero_pair_nth:
  assumes "i < length d" "j < length d" "i < length (d ! j)" "j < length (d ! i)"
  shows "zero_pair m i j d ! p ! q
           = (if d ! i ! j = m \<and> d ! j ! i = m \<and> ((p, q) = (i, j) \<or> (p, q) = (j, i))
              then 0 else d ! p ! q)"
  using assms by (auto simp: zero_pair_def Let_def nth_list_update)

lemma zero_inv_step:
  assumes inv: "zero_inv m n d0 S d" and i: "i < n" and j: "j < n"
  shows "zero_inv m n d0 (insert (i, j) S) (zero_pair m i j d)"
proof -
  from inv have len: "length d = n" and rows: "\<And>p. p < n \<Longrightarrow> length (d ! p) = n"
    and cell: "\<And>p q. p < n \<Longrightarrow> q < n \<Longrightarrow>
      d ! p ! q = (if ((p, q) \<in> S \<or> (q, p) \<in> S) \<and> d0 ! p ! q = m \<and> d0 ! q ! p = m
                   then 0 else d0 ! p ! q)"
    unfolding zero_inv_def by blast+
  have z: "\<And>p q. zero_pair m i j d ! p ! q
      = (if d ! i ! j = m \<and> d ! j ! i = m \<and> ((p, q) = (i, j) \<or> (p, q) = (j, i))
         then 0 else d ! p ! q)"
    using i j len rows by (intro zero_pair_nth) simp_all
  show ?thesis
    unfolding zero_inv_def
  proof (intro conjI allI impI)
    show "length (zero_pair m i j d) = n"
      by (simp add: len)
  next
    fix p assume "p < n"
    then show "length (zero_pair m i j d ! p) = n"
      by (simp add: rows)
  next
    fix p q assume p: "p < n" and q: "q < n"
    show "zero_pair m i j d ! p ! q
        = (if ((p, q) \<in> insert (i, j) S \<or> (q, p) \<in> insert (i, j) S)
               \<and> d0 ! p ! q = m \<and> d0 ! q ! p = m
           then 0 else d0 ! p ! q)"
      unfolding z using cell [OF p q] cell [OF q p] cell [OF i j] cell [OF j i]
      by (auto split: if_splits)
  qed
qed

lemma zero_inv_inner:
  assumes "zero_inv m n d0 S d" and "i < n" and "\<forall>j \<in> set js. j < n"
  shows "zero_inv m n d0 (S \<union> Pair i ` set js) (fold (zero_pair m i) js d)"
  using assms
proof (induction js arbitrary: S d)
  case Nil
  then show ?case by simp
next
  case (Cons j js)
  have "zero_inv m n d0 (insert (i, j) S) (zero_pair m i j d)"
    using Cons.prems by (intro zero_inv_step) simp_all
  then have "zero_inv m n d0 (insert (i, j) S \<union> Pair i ` set js)
      (fold (zero_pair m i) js (zero_pair m i j d))"
    using Cons.prems by (intro Cons.IH) simp_all
  then show ?case by simp
qed

lemma zero_inv_outer:
  assumes "zero_inv m n d0 S d" and "\<forall>i \<in> set is. i < n"
  shows "zero_inv m n d0 (S \<union> {(i, j). i \<in> set is \<and> i \<le> j \<and> j < n})
           (fold (\<lambda>i d. fold (zero_pair m i) [i..<n] d) is d)"
  using assms
proof (induction "is" arbitrary: S d)
  case Nil
  then show ?case by simp
next
  case (Cons i "is")
  have "zero_inv m n d0 (S \<union> Pair i ` set [i..<n]) (fold (zero_pair m i) [i..<n] d)"
    using Cons.prems by (intro zero_inv_inner) simp_all
  then have "zero_inv m n d0
      ((S \<union> Pair i ` set [i..<n]) \<union> {(i, j). i \<in> set is \<and> i \<le> j \<and> j < n})
      (fold (\<lambda>i d. fold (zero_pair m i) [i..<n] d) is (fold (zero_pair m i) [i..<n] d))"
    using Cons.prems by (intro Cons.IH) simp_all
  moreover have "(S \<union> Pair i ` set [i..<n]) \<union> {(i, j). i \<in> set is \<and> i \<le> j \<and> j < n}
      = S \<union> {(i', j). i' \<in> set (i # is) \<and> i' \<le> j \<and> j < n}"
    by auto
  ultimately show ?case by simp
qed

text \<open>The degree matrix, cell by cell.\<close>

lemma ComputeDegreeMatrix_nth:
  assumes si: "sorted_idx pop idx" and m: "0 < length (Fitness (hd pop))"
    and p: "p < length pop" and q: "q < length pop"
  shows "ComputeDegreeMatrix pop idx ! p ! q
           = (if no_worse_count pop p q = length (Fitness (hd pop))
                 \<and> no_worse_count pop q p = length (Fitness (hd pop))
              then 0 else no_worse_count pop p q)"
    and "length (ComputeDegreeMatrix pop idx) = length pop"
    and "length (ComputeDegreeMatrix pop idx ! p) = length pop"
proof -
  let ?n = "length pop" and ?m = "length (Fitness (hd pop))"
  let ?d0 = "ComparisonMatrixSum pop idx"
  have n: "0 < ?n" using p by linarith
  have s: "sum_inv pop ?m ?d0"
    using si n m by (rule ComparisonMatrixSum_inv)
  then have "zero_inv ?m ?n ?d0 {} ?d0"
    unfolding sum_inv_def zero_inv_def by simp
  then have "zero_inv ?m ?n ?d0 ({} \<union> {(i, j). i \<in> set [0..<?n] \<and> i \<le> j \<and> j < ?n})
      (fold (\<lambda>i d. fold (zero_pair ?m i) [i..<?n] d) [0..<?n] ?d0)"
    by (intro zero_inv_outer) simp_all
  moreover have "{} \<union> {(i, j). i \<in> set [0..<?n] \<and> i \<le> j \<and> j < ?n}
      = {(i, j). i \<le> j \<and> j < ?n}"
    by auto
  ultimately have z: "zero_inv ?m ?n ?d0 {(i, j). i \<le> j \<and> j < ?n} (ComputeDegreeMatrix pop idx)"
    by (simp add: ComputeDegreeMatrix_def Let_def)
  have "(p, q) \<in> {(i, j). i \<le> j \<and> j < ?n} \<or> (q, p) \<in> {(i, j). i \<le> j \<and> j < ?n}"
    using p q by auto
  then have "ComputeDegreeMatrix pop idx ! p ! q
      = (if ?d0 ! p ! q = ?m \<and> ?d0 ! q ! p = ?m then 0 else ?d0 ! p ! q)"
    using z p q unfolding zero_inv_def by simp
  then show "ComputeDegreeMatrix pop idx ! p ! q
      = (if no_worse_count pop p q = ?m \<and> no_worse_count pop q p = ?m
         then 0 else no_worse_count pop p q)"
    using ComparisonMatrixSum_nth [OF si m p q] ComparisonMatrixSum_nth [OF si m q p] by simp
  show "length (ComputeDegreeMatrix pop idx) = ?n"
    using z unfolding zero_inv_def by blast
  show "length (ComputeDegreeMatrix pop idx ! p) = ?n"
    using z p unfolding zero_inv_def by blast
qed

subsection \<open>Peeling the fronts\<close>

lemma peel_total:
  assumes unblocked: "\<And>S. S \<noteq> {} \<Longrightarrow> S \<subseteq> {..<n} \<Longrightarrow> \<exists>i \<in> S. \<forall>j \<in> S. d ! j ! i < m"
    and "distinct tmp" and "set tmp \<subseteq> {..<n}" and "count + length tmp = n"
  shows "\<exists>fs. peel d m n tmp count fronts = Some (fronts @ fs)
           \<and> (\<forall>f \<in> set fs. f \<noteq> [])
           \<and> distinct (concat fs) \<and> set (concat fs) = set tmp
           \<and> (\<forall>k < length fs. \<forall>i \<in> set (fs ! k). \<forall>j \<in> set tmp.
                 \<not> d ! j ! i < m \<longrightarrow> (\<exists>k' < k. j \<in> set (fs ! k')))"
  using assms(2-)
proof (induction "length tmp" arbitrary: tmp count fronts rule: less_induct)
  case less
  show ?case
  proof (cases "tmp = []")
    case True
    with less.prems have "\<not> count < n" by simp
    then have "peel d m n tmp count fronts = Some (fronts @ [])"
      by (subst peel.simps) simp
    then show ?thesis
      using True by (intro exI [of _ "[]"]) simp
  next
    case False
    let ?ok = "\<lambda>i. list_all (\<lambda>j. d ! j ! i < m) tmp"
    let ?front = "filter ?ok tmp"
    let ?remaining = "filter (\<lambda>i. \<not> ?ok i) tmp"
    from False less.prems have lt: "count < n"
      by (cases tmp) auto
    have step: "peel d m n tmp count fronts
        = peel d m n ?remaining (count + length ?front) (fronts @ [?front])"
      using lt by (subst peel.simps) (simp add: Let_def)
    from False less.prems(2) obtain i where i: "i \<in> set tmp" "\<forall>j \<in> set tmp. d ! j ! i < m"
      using unblocked [of "set tmp"] by auto
    then have front_ne: "?front \<noteq> []"
      by (auto simp: filter_empty_conv list_all_iff)
    have split: "length ?front + length ?remaining = length tmp"
      by (rule sum_length_filter_compl)
    with front_ne have shorter: "length ?remaining < length tmp"
      by (cases ?front) auto
    have "\<exists>fs. peel d m n ?remaining (count + length ?front) (fronts @ [?front])
              = Some ((fronts @ [?front]) @ fs)
           \<and> (\<forall>f \<in> set fs. f \<noteq> [])
           \<and> distinct (concat fs) \<and> set (concat fs) = set ?remaining
           \<and> (\<forall>k < length fs. \<forall>i \<in> set (fs ! k). \<forall>j \<in> set ?remaining.
                 \<not> d ! j ! i < m \<longrightarrow> (\<exists>k' < k. j \<in> set (fs ! k')))"
      using less.prems split by (intro less.hyps [OF shorter]) auto
    then obtain fs where fs: "peel d m n ?remaining (count + length ?front) (fronts @ [?front])
              = Some ((fronts @ [?front]) @ fs)"
        "\<forall>f \<in> set fs. f \<noteq> []" "distinct (concat fs)" "set (concat fs) = set ?remaining"
        "\<forall>k < length fs. \<forall>i \<in> set (fs ! k). \<forall>j \<in> set ?remaining.
                 \<not> d ! j ! i < m \<longrightarrow> (\<exists>k' < k. j \<in> set (fs ! k'))"
      by blast
    have a: "peel d m n tmp count fronts = Some (fronts @ (?front # fs))"
      using step fs(1) by simp
    have b: "\<forall>f \<in> set (?front # fs). f \<noteq> []"
      using front_ne fs(2) by simp
    have c: "distinct (concat (?front # fs))"
      using less.prems(1) fs(3,4) by auto
    have e: "set (concat (?front # fs)) = set tmp"
      using fs(4) by auto
    have f: "\<forall>k < length (?front # fs). \<forall>i \<in> set ((?front # fs) ! k). \<forall>j \<in> set tmp.
                 \<not> d ! j ! i < m \<longrightarrow> (\<exists>k' < k. j \<in> set ((?front # fs) ! k'))"
    proof (intro allI impI ballI)
      fix k i j
      assume k: "k < length (?front # fs)" and ik: "i \<in> set ((?front # fs) ! k)"
        and j: "j \<in> set tmp" and blocked: "\<not> d ! j ! i < m"
      show "\<exists>k' < k. j \<in> set ((?front # fs) ! k')"
      proof (cases k)
        case 0
        with ik have "\<forall>j \<in> set tmp. d ! j ! i < m"
          by (simp add: list_all_iff)
        with j blocked show ?thesis by blast
      next
        case (Suc k0)
        with k ik have k0: "k0 < length fs" "i \<in> set (fs ! k0)"
          by simp_all
        show ?thesis
        proof (cases "?ok j")
          case True
          with j have "j \<in> set ((?front # fs) ! 0)" by simp
          then show ?thesis using Suc by blast
        next
          case False
          with j have "j \<in> set ?remaining" by simp
          with fs(5) k0 blocked obtain k' where "k' < k0" "j \<in> set (fs ! k')"
            by blast
          then have "Suc k' < k \<and> j \<in> set ((?front # fs) ! Suc k')"
            using Suc by simp
          then show ?thesis by blast
        qed
      qed
    qed
    show ?thesis
      using a b c e f by blast
  qed
qed

subsection \<open>Degree and dominance\<close>

lemma length_filter_eq_length: "length (filter Q xs) = length xs \<longleftrightarrow> list_all Q xs"
proof
  assume eq: "length (filter Q xs) = length xs"
  show "list_all Q xs"
  proof (rule ccontr)
    assume "\<not> list_all Q xs"
    then obtain x where "x \<in> set xs" "\<not> Q x"
      by (auto simp: list_all_iff)
    then have "length (filter Q xs) < length xs"
      by (rule length_filter_less)
    with eq show False by simp
  qed
next
  assume "list_all Q xs"
  then have "filter Q xs = xs"
    by (simp add: list_all_iff)
  then show "length (filter Q xs) = length xs"
    by simp
qed

lemma no_worse_count_le: "no_worse_count pop p q \<le> length (Fitness (hd pop))"
  unfolding no_worse_count_def using length_filter_le [of _ "[0..<length (Fitness (hd pop))]"]
  by simp

lemma no_worse_count_full:
  "no_worse_count pop p q = length (Fitness (hd pop))
     \<longleftrightarrow> (\<forall>c < length (Fitness (hd pop)). objective pop p c \<le> objective pop q c)"
  unfolding no_worse_count_def
  using length_filter_eq_length
    [of "\<lambda>c. objective pop p c \<le> objective pop q c" "[0..<length (Fitness (hd pop))]"]
  by (auto simp: list_all_iff)

lemma dominates_iff:
  "dominates a b \<longleftrightarrow>
     (\<forall>c < length (Fitness a). Fitness a ! c \<le> Fitness b ! c)
     \<and> (\<exists>c < length (Fitness a). Fitness a ! c < Fitness b ! c)"
  by (auto simp: dominates_def list_all_iff list_ex_iff)

lemma dominates_irrefl: "\<not> dominates a a"
  by (simp add: dominates_iff)

lemma dominates_trans:
  assumes "dominates a b" and "dominates b c"
    and "length (Fitness a) = length (Fitness b)"
  shows "dominates a c"
proof -
  from assms(1) obtain k where k: "k < length (Fitness a)" "Fitness a ! k < Fitness b ! k"
    by (auto simp: dominates_iff)
  with assms(2,3) have "Fitness a ! k < Fitness c ! k"
    by (auto simp: dominates_iff dest: spec [of _ k])
  moreover have "\<forall>i < length (Fitness a). Fitness a ! i \<le> Fitness c ! i"
    using assms by (auto simp: dominates_iff intro: order_trans)
  ultimately show ?thesis
    using k(1) by (auto simp: dominates_iff)
qed

lemma uniform_nth: "uniform pop m \<Longrightarrow> p < length pop \<Longrightarrow> length (Fitness (pop ! p)) = m"
  by (simp add: uniform_def list_all_length)

lemma uniform_hd: "uniform pop m \<Longrightarrow> pop \<noteq> [] \<Longrightarrow> length (Fitness (hd pop)) = m"
  by (cases pop) (simp_all add: uniform_def)

lemma degree_less_iff:
  assumes si: "sorted_idx pop idx" and m: "0 < m" and u: "uniform pop m"
    and p: "p < length pop" and q: "q < length pop"
  shows "ComputeDegreeMatrix pop idx ! p ! q < m \<longleftrightarrow> \<not> dominates (pop ! p) (pop ! q)"
proof -
  have ne: "pop \<noteq> []" using p by auto
  have hm: "length (Fitness (hd pop)) = m"
    using u ne by (rule uniform_hd)
  have lp: "length (Fitness (pop ! p)) = m"
    using u p by (rule uniform_nth)
  have cell: "ComputeDegreeMatrix pop idx ! p ! q
      = (if no_worse_count pop p q = m \<and> no_worse_count pop q p = m
         then 0 else no_worse_count pop p q)"
    using ComputeDegreeMatrix_nth(1) [OF si _ p q] m hm by simp
  have le: "no_worse_count pop p q \<le> m"
    using no_worse_count_le [of pop p q] hm by simp
  have pq: "no_worse_count pop p q = m
      \<longleftrightarrow> (\<forall>c < m. Fitness (pop ! p) ! c \<le> Fitness (pop ! q) ! c)"
    using no_worse_count_full [of pop p q] hm by (simp add: objective_def)
  have qp: "no_worse_count pop q p = m
      \<longleftrightarrow> (\<forall>c < m. Fitness (pop ! q) ! c \<le> Fitness (pop ! p) ! c)"
    using no_worse_count_full [of pop q p] hm by (simp add: objective_def)
  have dom: "dominates (pop ! p) (pop ! q)
      \<longleftrightarrow> no_worse_count pop p q = m \<and> no_worse_count pop q p \<noteq> m"
    unfolding dominates_iff lp pq qp
    by (metis linorder_not_less order_less_imp_le)
  show ?thesis
    unfolding cell dom using m le by auto
qed

lemma unblocked_exists:
  assumes si: "sorted_idx pop idx" and m: "0 < m" and u: "uniform pop m"
    and S: "S \<noteq> {}" "S \<subseteq> {..<length pop}"
  shows "\<exists>i \<in> S. \<forall>j \<in> S. ComputeDegreeMatrix pop idx ! j ! i < m"
proof -
  let ?n = "length pop"
  let ?R = "{(j, i). j < ?n \<and> i < ?n \<and> dominates (pop ! j) (pop ! i)}"
  have "?R \<subseteq> {..<?n} \<times> {..<?n}"
    by auto
  then have fin: "finite ?R"
    by (rule finite_subset) simp
  have "trans ?R"
  proof (rule transI)
    fix x y z assume "(x, y) \<in> ?R" and "(y, z) \<in> ?R"
    then show "(x, z) \<in> ?R"
      using dominates_trans [of "pop ! x" "pop ! y" "pop ! z"] uniform_nth [OF u]
      by auto
  qed
  moreover have "irrefl ?R"
    by (auto simp: irrefl_def dominates_irrefl)
  ultimately have "acyclic ?R"
    by (simp add: acyclic_irrefl)
  with fin have "wf ?R"
    by (rule finite_acyclic_wf)
  moreover from S(1) obtain x where "x \<in> S"
    by blast
  ultimately obtain z where z: "z \<in> S" "\<And>y. (y, z) \<in> ?R \<Longrightarrow> y \<notin> S"
    by (rule wfE_min) blast
  have "\<forall>j \<in> S. ComputeDegreeMatrix pop idx ! j ! z < m"
  proof
    fix j assume j: "j \<in> S"
    with S(2) z(1) have jn: "j < ?n" and zn: "z < ?n"
      by auto
    from j z(2) have "(j, z) \<notin> ?R"
      by blast
    with jn zn have "\<not> dominates (pop ! j) (pop ! z)"
      by simp
    then show "ComputeDegreeMatrix pop idx ! j ! z < m"
      using degree_less_iff [OF si m u jn zn] by simp
  qed
  with z(1) show ?thesis
    by blast
qed

subsection \<open>The fronts\<close>

lemma Sort_idx_fronts:
  assumes si: "sorted_idx pop idx" and ne: "pop \<noteq> []" and m: "0 < m" and u: "uniform pop m"
  shows "\<exists>fs. Sort_idx pop idx = Some fs
           \<and> (\<forall>f \<in> set fs. f \<noteq> [])
           \<and> distinct (concat fs) \<and> set (concat fs) = {..<length pop}
           \<and> (\<forall>k < length fs. \<forall>i \<in> set (fs ! k). \<forall>j < length pop.
                 dominates (pop ! j) (pop ! i) \<longrightarrow> (\<exists>k' < k. j \<in> set (fs ! k')))"
proof -
  let ?n = "length pop"
  let ?d = "ComputeDegreeMatrix pop idx"
  have hm: "length (Fitness (hd pop)) = m"
    using u ne by (rule uniform_hd)
  have "\<exists>fs. peel ?d m ?n [0..<?n] 0 [] = Some ([] @ fs)
           \<and> (\<forall>f \<in> set fs. f \<noteq> [])
           \<and> distinct (concat fs) \<and> set (concat fs) = set [0..<?n]
           \<and> (\<forall>k < length fs. \<forall>i \<in> set (fs ! k). \<forall>j \<in> set [0..<?n].
                 \<not> ?d ! j ! i < m \<longrightarrow> (\<exists>k' < k. j \<in> set (fs ! k')))"
    using unblocked_exists [OF si m u] by (intro peel_total) auto
  then obtain fs where fs0: "peel ?d m ?n [0..<?n] 0 [] = Some ([] @ fs)"
      "\<forall>f \<in> set fs. f \<noteq> []" "distinct (concat fs)" "set (concat fs) = set [0..<?n]"
      "\<forall>k < length fs. \<forall>i \<in> set (fs ! k). \<forall>j \<in> set [0..<?n].
                 \<not> ?d ! j ! i < m \<longrightarrow> (\<exists>k' < k. j \<in> set (fs ! k'))"
    by blast
  then have fs: "peel ?d m ?n [0..<?n] 0 [] = Some fs"
      "\<forall>f \<in> set fs. f \<noteq> []" "distinct (concat fs)" "set (concat fs) = {..<?n}"
      "\<forall>k < length fs. \<forall>i \<in> set (fs ! k). \<forall>j \<in> set [0..<?n].
                 \<not> ?d ! j ! i < m \<longrightarrow> (\<exists>k' < k. j \<in> set (fs ! k'))"
    by (simp_all add: atLeast0LessThan)
  have "\<forall>k < length fs. \<forall>i \<in> set (fs ! k). \<forall>j < ?n.
      dominates (pop ! j) (pop ! i) \<longrightarrow> (\<exists>k' < k. j \<in> set (fs ! k'))"
  proof (intro allI impI ballI)
    fix k i j
    assume k: "k < length fs" and i: "i \<in> set (fs ! k)" and j: "j < ?n"
      and dom: "dominates (pop ! j) (pop ! i)"
    from k i have "i \<in> set (concat fs)"
      by auto
    with fs(4) have "i < ?n"
      by simp
    with dom j have "\<not> ?d ! j ! i < m"
      using degree_less_iff [OF si m u j] by simp
    with fs(5) k i j show "\<exists>k' < k. j \<in> set (fs ! k')"
      by simp
  qed
  with fs(1-4) show ?thesis
    by (simp add: Sort_idx_def Let_def hm)
qed

lemma sorted_idx_sort_key:
  assumes "pop \<noteq> []"
  shows "sorted_idx pop
           (map (\<lambda>i. sort_key (\<lambda>a. objective pop a i) [0..<length pop])
                [0..<length (Fitness (hd pop))])"
  by (auto simp: sorted_idx_def sorted_column_def list_all_iff)

text \<open>How \<open>std::sort\<close> orders equal values does not matter.\<close>

lemma ComputeDegreeMatrix_unique:
  assumes "sorted_idx pop idx" and "sorted_idx pop idx'" and "0 < length (Fitness (hd pop))"
    and "pop \<noteq> []"
  shows "ComputeDegreeMatrix pop idx = ComputeDegreeMatrix pop idx'"
proof -
  from assms(4) have n: "0 < length pop" by simp
  have len: "length (ComputeDegreeMatrix pop idx) = length pop"
      "length (ComputeDegreeMatrix pop idx') = length pop"
    using ComputeDegreeMatrix_nth(2) [OF _ assms(3) n n] assms(1,2) by blast+
  show ?thesis
  proof (rule nth_equalityI)
    show "length (ComputeDegreeMatrix pop idx) = length (ComputeDegreeMatrix pop idx')"
      using len by simp
  next
    fix p assume "p < length (ComputeDegreeMatrix pop idx)"
    with len have p: "p < length pop" by simp
    show "ComputeDegreeMatrix pop idx ! p = ComputeDegreeMatrix pop idx' ! p"
    proof (rule nth_equalityI)
      show "length (ComputeDegreeMatrix pop idx ! p) = length (ComputeDegreeMatrix pop idx' ! p)"
        using ComputeDegreeMatrix_nth(3) [OF _ assms(3) p p] assms(1,2) by simp
    next
      fix q assume "q < length (ComputeDegreeMatrix pop idx ! p)"
      then have q: "q < length pop"
        using ComputeDegreeMatrix_nth(3) [OF assms(1,3) p p] by simp
      show "ComputeDegreeMatrix pop idx ! p ! q = ComputeDegreeMatrix pop idx' ! p ! q"
        using ComputeDegreeMatrix_nth(1) [OF _ assms(3) p q] assms(1,2) by simp
    qed
  qed
qed

lemma Sort_idx_unique:
  assumes "sorted_idx pop idx" and "pop \<noteq> []" and "0 < length (Fitness (hd pop))"
  shows "Sort_idx pop idx = Sort pop"
proof -
  have "ComputeDegreeMatrix pop idx
      = ComputeDegreeMatrix pop
          (map (\<lambda>i. sort_key (\<lambda>a. objective pop a i) [0..<length pop])
               [0..<length (Fitness (hd pop))])"
    using assms(1) sorted_idx_sort_key [OF assms(2)] assms(3,2)
    by (rule ComputeDegreeMatrix_unique)
  then show ?thesis
    using assms(2) by (simp add: Sort_def Sort_idx_def Let_def)
qed

subsection \<open>The claims about the sorter\<close>

lemma length_concat_nonempty:
  "\<forall>f \<in> set fs. f \<noteq> [] \<Longrightarrow> length fs \<le> length (concat fs)"
proof (induction fs)
  case Nil
  then show ?case by simp
next
  case (Cons f fs)
  then show ?case by (cases f) auto
qed

lemma front_unique:
  assumes "distinct (concat fs)"
    and "k < length fs" "i \<in> set (fs ! k)"
    and "k' < length fs" "i \<in> set (fs ! k')"
  shows "k = k'"
  using assms
proof (induction fs arbitrary: k k')
  case Nil
  then show ?case by simp
next
  case (Cons f fs)
  have tail: "\<And>l. l < length fs \<Longrightarrow> i \<in> set (fs ! l) \<Longrightarrow> i \<in> set (concat fs)"
    by auto
  show ?case
  proof (cases k; cases k')
    fix a b assume "k = Suc a" "k' = Suc b"
    with Cons show ?thesis by auto
  next
    fix b assume "k = 0" "k' = Suc b"
    with Cons.prems tail [of b] show ?thesis by auto
  next
    fix a assume "k = Suc a" "k' = 0"
    with Cons.prems tail [of a] show ?thesis by auto
  qed simp
qed

text \<open>
  Claim C2. For a non-empty population whose individuals all carry \<open>m \<ge> 1\<close> objectives,
  \<open>Sort\<close> returns a list of fronts that partitions the indices \<open>0, \<dots>, n - 1\<close>; the
  members of front \<open>0\<close> do not dominate each other; whoever dominates a member of front
  \<open>k\<close> is in a front before \<open>k\<close>; and the result is the same however the sort
  orders equal values. The population \<open>(1,4), (2,3), (3,2), (4,1)\<close> is one front, and
  \<open>(1,1), (2,2), (3,3)\<close> gives the three fronts \<open>[0], [1], [2]\<close>.
\<close>

theorem Sort_fronts:
  "(pop \<noteq> [] \<and> 0 < m \<and> uniform pop m \<longrightarrow>
      (\<exists>fronts. Sort pop = Some fronts
         \<and> distinct (concat fronts) \<and> set (concat fronts) = {..<length pop}
         \<and> (\<forall>i \<in> set (fronts ! 0). \<forall>j \<in> set (fronts ! 0). \<not> dominates (pop ! j) (pop ! i))
         \<and> (\<forall>k < length fronts. \<forall>i \<in> set (fronts ! k). \<forall>j < length pop.
               dominates (pop ! j) (pop ! i) \<longrightarrow> (\<exists>k' < k. j \<in> set (fronts ! k')))
         \<and> (\<forall>idx. sorted_idx pop idx \<longrightarrow> Sort_idx pop idx = Some fronts)))
   \<and> Sort (map individual [[1, 4], [2, 3], [3, 2], [4, 1 :: real]]) = Some [[0, 1, 2, 3]]
   \<and> Sort (map individual [[1, 1], [2, 2], [3, 3 :: real]]) = Some [[0], [1], [2]]"
proof (intro conjI impI)
  assume a: "pop \<noteq> [] \<and> 0 < m \<and> uniform pop m"
  then have ne: "pop \<noteq> []" and m: "0 < m" and u: "uniform pop m"
    by simp_all
  have hm: "0 < length (Fitness (hd pop))"
    using uniform_hd [OF u ne] m by simp
  let ?idx = "map (\<lambda>i. sort_key (\<lambda>a. objective pop a i) [0..<length pop])
                [0..<length (Fitness (hd pop))]"
  have si: "sorted_idx pop ?idx"
    using ne by (rule sorted_idx_sort_key)
  have eq: "Sort pop = Sort_idx pop ?idx"
    using ne by (simp add: Sort_def Let_def)
  obtain fs where fs: "Sort pop = Some fs" "distinct (concat fs)"
      "set (concat fs) = {..<length pop}"
      "\<forall>k < length fs. \<forall>i \<in> set (fs ! k). \<forall>j < length pop.
          dominates (pop ! j) (pop ! i) \<longrightarrow> (\<exists>k' < k. j \<in> set (fs ! k'))"
    using Sort_idx_fronts [OF si ne m u] unfolding eq by blast
  from ne fs(3) have "concat fs \<noteq> []"
    by (metis length_greater_0_conv lessThan_iff list.set(1) empty_iff)
  then have pos: "0 < length fs"
    by (cases fs) simp_all
  have first: "\<forall>i \<in> set (fs ! 0). \<forall>j \<in> set (fs ! 0). \<not> dominates (pop ! j) (pop ! i)"
  proof (intro ballI notI)
    fix i j assume i: "i \<in> set (fs ! 0)" and j: "j \<in> set (fs ! 0)"
      and dom: "dominates (pop ! j) (pop ! i)"
    from j pos have "j \<in> set (concat fs)"
      by (cases fs) simp_all
    with fs(3) have "j < length pop"
      by simp
    with fs(4) pos i dom have "\<exists>k' < 0. j \<in> set (fs ! k')"
      by blast
    then show False by simp
  qed
  have any: "\<forall>idx. sorted_idx pop idx \<longrightarrow> Sort_idx pop idx = Some fs"
    using Sort_idx_unique [OF _ ne hm] fs(1) by simp
  show "\<exists>fronts. Sort pop = Some fronts
      \<and> distinct (concat fronts) \<and> set (concat fronts) = {..<length pop}
      \<and> (\<forall>i \<in> set (fronts ! 0). \<forall>j \<in> set (fronts ! 0). \<not> dominates (pop ! j) (pop ! i))
      \<and> (\<forall>k < length fronts. \<forall>i \<in> set (fronts ! k). \<forall>j < length pop.
            dominates (pop ! j) (pop ! i) \<longrightarrow> (\<exists>k' < k. j \<in> set (fronts ! k')))
      \<and> (\<forall>idx. sorted_idx pop idx \<longrightarrow> Sort_idx pop idx = Some fronts)"
    using fs first any by blast
next
  show "Sort (map individual [[1, 4], [2, 3], [3, 2], [4, 1 :: real]]) = Some [[0, 1, 2, 3]]"
    by code_simp
next
  show "Sort (map individual [[1, 1], [2, 2], [3, 3 :: real]]) = Some [[0], [1], [2]]"
    by code_simp
qed

theorem Sort_fronts_witness:
  "map individual [[1, 1], [2, 2], [1, 1], [3, 3 :: real], [0, 5], [2, 1]] \<noteq> []
   \<and> (0 :: nat) < 2
   \<and> uniform (map individual [[1, 1], [2, 2], [1, 1], [3, 3 :: real], [0, 5], [2, 1]]) 2
   \<and> (\<exists>fronts. Sort (map individual [[1, 1], [2, 2], [1, 1], [3, 3 :: real], [0, 5], [2, 1]])
          = Some fronts
        \<and> fronts = [[0, 2, 4], [5], [1], [3]]
        \<and> distinct (concat fronts) \<and> set (concat fronts) = {..<6})"
proof -
  let ?pop = "map individual [[1, 1], [2, 2], [1, 1], [3, 3 :: real], [0, 5], [2, 1]]"
  have h: "?pop \<noteq> [] \<and> (0 :: nat) < 2 \<and> uniform ?pop 2"
    by (simp add: uniform_def individual_def)
  have v: "Sort ?pop = Some [[0, 2, 4], [5], [1], [3]]"
    by code_simp
  from Sort_fronts [of ?pop 2] h
  obtain fronts where "Sort ?pop = Some fronts" "distinct (concat fronts)"
      "set (concat fronts) = {..<length ?pop}"
    by blast
  with v h show ?thesis
    by simp
qed

text \<open>
  Claim C10. For a non-empty population whose individuals all carry \<open>m \<ge> 1\<close>
  objectives the loop of \<open>Sort\<close> ends: it returns fronts none of which is empty (every
  iteration assigns at least one remaining index), so there are at most \<open>n\<close> of them,
  and every index is in exactly one front. On the empty population \<open>Sort\<close> has no
  defined result, since it reads the first individual.
\<close>

theorem Sort_terminates:
  "(pop \<noteq> [] \<and> 0 < m \<and> uniform pop m \<longrightarrow>
      (\<exists>fronts. Sort pop = Some fronts
         \<and> (\<forall>f \<in> set fronts. f \<noteq> [])
         \<and> length fronts \<le> length pop
         \<and> (\<forall>i < length pop. \<exists>!k. k < length fronts \<and> i \<in> set (fronts ! k))))
   \<and> Sort ([] :: ('a::linorder) Individual list) = None"
proof (intro conjI impI)
  assume a: "pop \<noteq> [] \<and> 0 < m \<and> uniform pop m"
  then have ne: "pop \<noteq> []" and m: "0 < m" and u: "uniform pop m"
    by simp_all
  let ?idx = "map (\<lambda>i. sort_key (\<lambda>a. objective pop a i) [0..<length pop])
                [0..<length (Fitness (hd pop))]"
  have si: "sorted_idx pop ?idx"
    using ne by (rule sorted_idx_sort_key)
  have eq: "Sort pop = Sort_idx pop ?idx"
    using ne by (simp add: Sort_def Let_def)
  obtain fs where fs: "Sort pop = Some fs" "\<forall>f \<in> set fs. f \<noteq> []" "distinct (concat fs)"
      "set (concat fs) = {..<length pop}"
    using Sort_idx_fronts [OF si ne m u] unfolding eq by blast
  have "length (concat fs) = length pop"
    using fs(3,4) by (metis card_lessThan distinct_card)
  then have bound: "length fs \<le> length pop"
    using length_concat_nonempty [OF fs(2)] by simp
  have one: "\<forall>i < length pop. \<exists>!k. k < length fs \<and> i \<in> set (fs ! k)"
  proof (intro allI impI)
    fix i assume "i < length pop"
    with fs(4) have "i \<in> set (concat fs)"
      by simp
    then obtain f where "f \<in> set fs" "i \<in> set f"
      by auto
    then obtain k where k: "k < length fs" "i \<in> set (fs ! k)"
      by (metis in_set_conv_nth)
    show "\<exists>!k. k < length fs \<and> i \<in> set (fs ! k)"
    proof (rule ex1I [of _ k])
      show "k < length fs \<and> i \<in> set (fs ! k)"
        using k by simp
    next
      fix k' assume "k' < length fs \<and> i \<in> set (fs ! k')"
      then show "k' = k"
        using front_unique [OF fs(3), of k' i k] k by simp
    qed
  qed
  show "\<exists>fronts. Sort pop = Some fronts
      \<and> (\<forall>f \<in> set fronts. f \<noteq> [])
      \<and> length fronts \<le> length pop
      \<and> (\<forall>i < length pop. \<exists>!k. k < length fronts \<and> i \<in> set (fronts ! k))"
    using fs(1,2) bound one by blast
next
  show "Sort ([] :: 'a Individual list) = None"
    by (simp add: Sort_def)
qed

theorem Sort_terminates_witness:
  "map individual [[1, 1], [2, 2], [3, 3 :: real]] \<noteq> []
   \<and> (0 :: nat) < 2
   \<and> uniform (map individual [[1, 1], [2, 2], [3, 3 :: real]]) 2
   \<and> (\<exists>fronts. Sort (map individual [[1, 1], [2, 2], [3, 3 :: real]]) = Some fronts
        \<and> length fronts \<le> 3 \<and> [] \<notin> set fronts)"
proof -
  let ?pop = "map individual [[1, 1], [2, 2], [3, 3 :: real]]"
  have h: "?pop \<noteq> [] \<and> (0 :: nat) < 2 \<and> uniform ?pop 2"
    by (simp add: uniform_def individual_def)
  from Sort_terminates [of ?pop 2] h
  obtain fronts where "Sort ?pop = Some fronts" "\<forall>f \<in> set fronts. f \<noteq> []"
      "length fronts \<le> length ?pop"
    by blast
  with h show ?thesis
    by auto
qed

text \<open>
  Claim C3, as amended. For index columns sorted by their objectives: the comparison
  matrix of objective \<open>c\<close> has \<open>1\<close> in cell \<open>(p, q)\<close> iff \<open>q\<close> is no better than \<open>p\<close>
  on \<open>c\<close>; the sum of the matrices holds in cell \<open>(p, q)\<close> the number of objectives on
  which \<open>q\<close> is not better than \<open>p\<close> (\<open>p\<close> is no worse than \<open>q\<close>); the degree matrix is
  the sum with every pair of cells \<open>(p, q)\<close>, \<open>(q, p)\<close> that both hold \<open>m\<close> set to \<open>0\<close>; and
  both hold \<open>m\<close> exactly when \<open>p\<close> and \<open>q\<close> have the same value on every objective.
\<close>

theorem ComputeDegreeMatrix_cells:
  assumes "sorted_idx pop idx" and "0 < length (Fitness (hd pop))"
    and "p < length pop" and "q < length pop"
  shows "(\<forall>c < length (Fitness (hd pop)).
            ComputeComparisonMatrix pop idx c ! p ! q
              = (if objective pop p c \<le> objective pop q c then 1 else 0))
       \<and> ComparisonMatrixSum pop idx ! p ! q = no_worse_count pop p q
       \<and> ComputeDegreeMatrix pop idx ! p ! q
           = (if ComparisonMatrixSum pop idx ! p ! q = length (Fitness (hd pop))
                 \<and> ComparisonMatrixSum pop idx ! q ! p = length (Fitness (hd pop))
              then 0 else ComparisonMatrixSum pop idx ! p ! q)
       \<and> (ComparisonMatrixSum pop idx ! p ! q = length (Fitness (hd pop))
            \<and> ComparisonMatrixSum pop idx ! q ! p = length (Fitness (hd pop))
          \<longleftrightarrow> (\<forall>c < length (Fitness (hd pop)). objective pop p c = objective pop q c))"
proof (intro conjI)
  show "\<forall>c < length (Fitness (hd pop)).
      ComputeComparisonMatrix pop idx c ! p ! q
        = (if objective pop p c \<le> objective pop q c then 1 else 0)"
    using ComputeComparisonMatrix_nth [OF sorted_idx_column [OF assms(1)] assms(3,4)]
    by blast
  show pq: "ComparisonMatrixSum pop idx ! p ! q = no_worse_count pop p q"
    using assms by (rule ComparisonMatrixSum_nth)
  have qp: "ComparisonMatrixSum pop idx ! q ! p = no_worse_count pop q p"
    using assms(1,2,4,3) by (rule ComparisonMatrixSum_nth)
  show "ComputeDegreeMatrix pop idx ! p ! q
      = (if ComparisonMatrixSum pop idx ! p ! q = length (Fitness (hd pop))
            \<and> ComparisonMatrixSum pop idx ! q ! p = length (Fitness (hd pop))
         then 0 else ComparisonMatrixSum pop idx ! p ! q)"
    unfolding pq qp using assms by (rule ComputeDegreeMatrix_nth(1))
  show "ComparisonMatrixSum pop idx ! p ! q = length (Fitness (hd pop))
        \<and> ComparisonMatrixSum pop idx ! q ! p = length (Fitness (hd pop))
      \<longleftrightarrow> (\<forall>c < length (Fitness (hd pop)). objective pop p c = objective pop q c)"
    unfolding pq qp no_worse_count_full by (auto intro: order_antisym)
qed

theorem ComputeDegreeMatrix_cells_witness:
  "sorted_idx (map individual [[1, 1], [2, 2], [1, 1 :: real]]) [[0, 2, 1], [2, 0, 1]]
   \<and> ComparisonMatrixSum (map individual [[1, 1], [2, 2], [1, 1 :: real]])
        [[0, 2, 1], [2, 0, 1]] ! 0 ! 2 = 2
   \<and> ComputeDegreeMatrix (map individual [[1, 1], [2, 2], [1, 1 :: real]])
        [[0, 2, 1], [2, 0, 1]] ! 0 ! 2 = 0
   \<and> ComputeDegreeMatrix (map individual [[1, 1], [2, 2], [1, 1 :: real]])
        [[0, 2, 1], [2, 0, 1]] ! 0 ! 1 = 2"
proof -
  let ?pop = "map individual [[1, 1], [2, 2], [1, 1 :: real]]"
  let ?idx = "[[0, 2, 1], [2, 0, 1 :: nat]]"
  let ?S = "ComparisonMatrixSum ?pop ?idx"
  have si: "sorted_idx ?pop ?idx"
    by code_simp
  have m: "0 < length (Fitness (hd ?pop))"
    by (simp add: individual_def)
  have p: "0 < length ?pop" "1 < length ?pop" "2 < length ?pop"
    by simp_all
  have c: "no_worse_count ?pop 0 2 = 2" "no_worse_count ?pop 2 0 = 2"
      "no_worse_count ?pop 0 1 = 2" "no_worse_count ?pop 1 0 = 0"
    by code_simp+
  have l: "length (Fitness (hd ?pop)) = 2"
    by (simp add: individual_def)
  note t02 = ComputeDegreeMatrix_cells [OF si m p(1) p(3)]
  note t20 = ComputeDegreeMatrix_cells [OF si m p(3) p(1)]
  note t01 = ComputeDegreeMatrix_cells [OF si m p(1) p(2)]
  note t10 = ComputeDegreeMatrix_cells [OF si m p(2) p(1)]
  have s: "?S ! 0 ! 2 = 2" "?S ! 2 ! 0 = 2" "?S ! 0 ! 1 = 2" "?S ! 1 ! 0 = 0"
    using t02 t20 t01 t10 unfolding c by blast+
  have d02: "ComputeDegreeMatrix ?pop ?idx ! 0 ! 2 = (if (2::nat) = 2 \<and> (2::nat) = 2 then 0 else 2)"
    using t02 unfolding s l by blast
  have d01: "ComputeDegreeMatrix ?pop ?idx ! 0 ! 1 = (if (2::nat) = 2 \<and> (0::nat) = 2 then 0 else 2)"
    using t01 unfolding s l by blast
  show ?thesis
    unfolding d02 d01 s using si by simp
qed

text \<open>
  The claim C3 as it was stated has the cell \<open>(i, j)\<close> count the objectives on which
  \<open>i\<close> is not better than \<open>j\<close>. For the two individuals \<open>(1)\<close> and \<open>(2)\<close> with one
  objective, individual \<open>0\<close> is better than individual \<open>1\<close> on the only objective, so
  that count is \<open>0\<close>, and the cell \<open>(0, 1)\<close> holds \<open>1\<close>.
\<close>

theorem ComputeDegreeMatrix_not_better_counterexample:
  "sorted_idx (map individual [[1], [2 :: real]]) [[0, 1]]
   \<and> ComparisonMatrixSum (map individual [[1], [2 :: real]]) [[0, 1]] ! 0 ! 1 = 1
   \<and> ComputeDegreeMatrix (map individual [[1], [2 :: real]]) [[0, 1]] ! 0 ! 1 = 1
   \<and> not_better_count (map individual [[1], [2 :: real]]) 0 1 = 0"
  by code_simp

section \<open>Properties of the evolutionary loop\<close>

subsection \<open>Creation and evaluation\<close>

lemma Fitness_set_Fitness:
  "i < length (Fitness ind) \<Longrightarrow> Fitness (set_Fitness ind i v) ! i = v"
  by (simp add: set_Fitness_def)

lemma length_Fitness_set_Fitness [simp]:
  "length (Fitness (set_Fitness ind i v)) = length (Fitness ind)"
  by (simp add: set_Fitness_def)

lemma Genotype_set_Fitness [simp]: "Genotype (set_Fitness ind i v) = Genotype ind"
  by (simp add: set_Fitness_def)

lemma create_parents_length [simp]: "length (parents (create C t i s)) = length (parents s)"
  by (simp add: create_def split: prod.splits)

lemma create_Fitness_length:
  "j < length (parents s) \<Longrightarrow>
   length (Fitness (parents (create C t i s) ! j)) = length (Fitness (parents s ! j))"
  by (cases "i = j") (simp_all add: create_def split: prod.splits)

lemma create_phase_Fitness_length:
  "length (parents (fold (\<lambda>(t, i). create C t i) cs s)) = length (parents s)
   \<and> (\<forall>j < length (parents s).
         length (Fitness (parents (fold (\<lambda>(t, i). create C t i) cs s) ! j))
           = length (Fitness (parents s ! j)))"
proof (induction cs arbitrary: s)
  case Nil
  then show ?case by simp
next
  case (Cons c cs)
  obtain t i where c: "c = (t, i)" by (cases c)
  show ?case
    using Cons [of "create C t i s"] by (simp add: c create_Fitness_length)
qed

lemma evaluate_parents_length [simp]: "length (parents (evaluate C t i s)) = length (parents s)"
  by (simp add: evaluate_def split: prod.splits)

lemma evaluate_other:
  "j \<noteq> i \<Longrightarrow> parents (evaluate C t i s) ! j = parents s ! j"
  by (simp add: evaluate_def split: prod.splits)

lemma evaluate_Fitness_length:
  assumes "fixed_size C" and "j < length (parents s)"
  shows "length (Fitness (parents (evaluate C t i s) ! j)) = length (Fitness (parents s ! j))"
proof (cases "i = j")
  case True
  obtain f ind w r where e: "evaluator C (world s) (rndlocal s t) (parents s ! i) = (f, ind, w, r)"
    by (cases "evaluator C (world s) (rndlocal s t) (parents s ! i)") auto
  have "length (Fitness ind) = length (Fitness (parents s ! i))"
    using assms(1) e unfolding fixed_size_def
    by (metis fst_conv snd_conv)
  then show ?thesis
    using True assms(2) e by (simp add: evaluate_def)
next
  case False
  then show ?thesis
    by (simp add: evaluate_other)
qed

text \<open>What \<open>evaluate\<close> stores in the slot it is run on.\<close>

lemma evaluate_stores:
  assumes "fixed_size C" and "i < length (parents s)"
    and "Idx C < length (Fitness (parents s ! i))"
  shows "Fitness (parents (evaluate C t i s) ! i) ! Idx C
           = (let fitness = fst (evaluator C (world s) (rndlocal s t) (parents s ! i))
              in if isfinite fitness then fitness else worst C)"
proof -
  obtain f ind w r where e: "evaluator C (world s) (rndlocal s t) (parents s ! i) = (f, ind, w, r)"
    by (cases "evaluator C (world s) (rndlocal s t) (parents s ! i)") auto
  have "length (Fitness ind) = length (Fitness (parents s ! i))"
    using assms(1) e unfolding fixed_size_def
    by (metis fst_conv snd_conv)
  then show ?thesis
    using assms(2,3) by (simp add: evaluate_def e Fitness_set_Fitness)
qed

lemma sized_nth: "sized C ps \<Longrightarrow> j < length ps \<Longrightarrow> Idx C < length (Fitness (ps ! j))"
  by (simp add: sized_def list_all_length)

lemma sizedI:
  "(\<And>j. j < length ps \<Longrightarrow> Idx C < length (Fitness (ps ! j))) \<Longrightarrow> sized C ps"
  by (simp add: sized_def list_all_length)

lemma evaluate_sized:
  assumes "fixed_size C" and "sized C (parents s)"
  shows "sized C (parents (evaluate C t i s))"
proof (rule sizedI)
  fix j assume "j < length (parents (evaluate C t i s))"
  then have j: "j < length (parents s)" by simp
  then show "Idx C < length (Fitness (parents (evaluate C t i s) ! j))"
    using evaluate_Fitness_length [OF assms(1) j] sized_nth [OF assms(2) j] by simp
qed

text \<open>
  The evaluation phase, for any property \<open>Q\<close> of the value that \<open>evaluate\<close> stores:
  every slot that some work item of the phase was run on has it afterwards.
\<close>

lemma evaluate_phase_stores:
  assumes fs: "fixed_size C"
    and Q: "\<And>w r ind. Q (let fitness = fst (evaluator C w r ind)
                           in if isfinite fitness then fitness else worst C)"
  shows "sized C (parents s) \<Longrightarrow>
     (\<forall>j < length (parents s). j \<in> E \<longrightarrow> Q (Fitness (parents s ! j) ! Idx C)) \<Longrightarrow>
     sized C (parents (fold (\<lambda>(t, i). evaluate C t i) es s))
     \<and> (\<forall>j < length (parents s). j \<in> E \<union> snd ` set es \<longrightarrow>
           Q (Fitness (parents (fold (\<lambda>(t, i). evaluate C t i) es s) ! j)
                ! Idx C))"
proof (induction es arbitrary: s E)
  case Nil
  then show ?case by simp
next
  case (Cons e es)
  obtain t i where e: "e = (t, i)" by (cases e)
  let ?s = "evaluate C t i s"
  have sz: "sized C (parents ?s)"
    using fs Cons.prems(1) by (rule evaluate_sized)
  have fin: "\<forall>j < length (parents ?s). j \<in> insert i E \<longrightarrow>
      Q (Fitness (parents ?s ! j) ! Idx C)"
  proof (intro allI impI)
    fix j assume "j < length (parents ?s)" and jd: "j \<in> insert i E"
    then have j: "j < length (parents s)" by simp
    show "Q (Fitness (parents ?s ! j) ! Idx C)"
    proof (cases "j = i")
      case True
      then show ?thesis
        using evaluate_stores [OF fs, of i s t] j sized_nth [OF Cons.prems(1) j] Q by simp
    next
      case False
      with jd have "j \<in> E" by simp
      then show ?thesis
        using Cons.prems(2) j False by (simp add: evaluate_other)
    qed
  qed
  have "insert i E \<union> snd ` set es = E \<union> snd ` set (e # es)"
    by (auto simp: e)
  then show ?case
    using Cons.IH [OF sz fin] by (simp add: e)
qed

subsection \<open>Offspring generation\<close>

lemma iterate_loop_frame:
  assumes "iterate_loop C config t i s = Some s'"
  shows "parents s' = parents s \<and> length (offspring s') = length (offspring s)
       \<and> (\<forall>j. j \<noteq> i \<longrightarrow> offspring s' ! j = offspring s ! j)
       \<and> reported s' = reported s \<and> generation s' = generation s"
proof (rule iterate_loop.raw_induct
    [where P = "\<lambda>C config t i s s'.
        parents s' = parents s \<and> length (offspring s') = length (offspring s)
        \<and> (\<forall>j. j \<noteq> i \<longrightarrow> offspring s' ! j = offspring s ! j)
        \<and> reported s' = reported s \<and> generation s' = generation s", OF _ assms])
  fix f :: "('a, 'b) collaborators \<Rightarrow> GeneticAlgorithmConfig \<Rightarrow> nat \<Rightarrow> nat
      \<Rightarrow> ('a, 'b) algorithm \<Rightarrow> ('a, 'b) algorithm option"
  fix C config t i s s'
  assume IH: "\<And>C config t i s s'. f C config t i s = Some s' \<Longrightarrow>
        parents s' = parents s \<and> length (offspring s') = length (offspring s)
        \<and> (\<forall>j. j \<noteq> i \<longrightarrow> offspring s' ! j = offspring s ! j)
        \<and> reported s' = reported s \<and> generation s' = generation s"
    and body: "(let s1 = s\<lparr>terminate := Terminate C (world s)\<rparr> in
      if terminate s1 then Some s1
      else (case recombinator C (world s1) (rndlocal s1 t)
                   (CrossoverProbability config) (MutationProbability config) of
              (Some recombinant, w, r) \<Rightarrow>
                Some (s1\<lparr>rndlocal := (rndlocal s1)(t := r), world := w,
                         offspring := (offspring s1)[i := recombinant]\<rparr>)
            | (None, w, r) \<Rightarrow>
                f C config t i (s1\<lparr>rndlocal := (rndlocal s1)(t := r), world := w\<rparr>))) = Some s'"
  show "parents s' = parents s \<and> length (offspring s') = length (offspring s)
       \<and> (\<forall>j. j \<noteq> i \<longrightarrow> offspring s' ! j = offspring s ! j)
       \<and> reported s' = reported s \<and> generation s' = generation s"
  proof (cases "Terminate C (world s)")
    case True
    with body show ?thesis by (auto simp: Let_def)
  next
    case False
    obtain res w r where rc: "recombinator C (world s) (rndlocal s t)
        (CrossoverProbability config) (MutationProbability config) = (res, w, r)"
      by (cases "recombinator C (world s) (rndlocal s t)
        (CrossoverProbability config) (MutationProbability config)") auto
    show ?thesis
    proof (cases res)
      case None
      with body False rc
      have "f C config t i
          (s\<lparr>terminate := False, rndlocal := (rndlocal s)(t := r), world := w\<rparr>) = Some s'"
        by (simp add: Let_def)
      from IH [OF this] show ?thesis by simp
    next
      case (Some recombinant)
      with body False rc show ?thesis
        by (auto simp: Let_def)
    qed
  qed
qed

lemma iterate_frame:
  assumes "iterate C config t i s = Some s'"
  shows "parents s' = parents s \<and> length (offspring s') = length (offspring s)
       \<and> (\<forall>j. j \<noteq> i \<longrightarrow> offspring s' ! j = offspring s ! j)
       \<and> reported s' = reported s \<and> generation s' = generation s"
  using iterate_loop_frame [OF assms [unfolded iterate_def]] by simp

lemma for_each_iterate_frame:
  assumes "for_each (\<lambda>(t, i). iterate C config t i) sched s = Some s'"
  shows "parents s' = parents s \<and> length (offspring s') = length (offspring s)
       \<and> (\<forall>j. j \<notin> snd ` set sched \<longrightarrow> offspring s' ! j = offspring s ! j)
       \<and> reported s' = reported s \<and> generation s' = generation s"
  using assms
proof (induction sched arbitrary: s)
  case Nil
  then show ?case by simp
next
  case (Cons x sched)
  obtain t i where x: "x = (t, i)" by (cases x)
  from Cons.prems obtain s1 where s1: "iterate C config t i s = Some s1"
      and rest: "for_each (\<lambda>(t, i). iterate C config t i) sched s1 = Some s'"
    by (auto simp: x split: option.splits)
  show ?case
    using iterate_frame [OF s1] Cons.IH [OF rest] by (auto simp: x)
qed

lemma backfill_frame [simp]:
  "parents (backfill i s) = parents s"
  "length (offspring (backfill i s)) = length (offspring s)"
  "reported (backfill i s) = reported s"
  "generation (backfill i s) = generation s"
  "terminate (backfill i s) = terminate s"
  by (simp_all add: backfill_def)

lemma fold_backfill_frame [simp]:
  "parents (fold backfill js s) = parents s"
  "length (offspring (fold backfill js s)) = length (offspring s)"
  "reported (fold backfill js s) = reported s"
  "generation (fold backfill js s) = generation s"
  "terminate (fold backfill js s) = terminate s"
  by (induction js arbitrary: s) simp_all

lemma backfill_nth:
  "j < length (offspring s) \<Longrightarrow>
   offspring (backfill i s) ! j
     = (if j = i \<and> Genotype (offspring s ! j) = [] then parents s ! j else offspring s ! j)"
  by (auto simp: backfill_def nth_list_update)


lemma fold_backfill_cases:
  "j < length (offspring s) \<Longrightarrow>
   offspring (fold backfill js s) ! j = offspring s ! j
   \<or> (j \<in> set js \<and> Genotype (offspring s ! j) = [] \<and> offspring (fold backfill js s) ! j = parents s ! j)"
proof (induction js arbitrary: s)
  case Nil
  then show ?case by simp
next
  case (Cons i js)
  have "j < length (offspring (backfill i s))"
    using Cons.prems by simp
  from Cons.IH [OF this] show ?case
    using Cons.prems by (auto simp: backfill_nth split: if_splits)
qed


subsection \<open>The elite\<close>

lemma minimal_exists:
  assumes "strict_order cmp" and "xs \<noteq> []"
  shows "\<exists>i < length xs. \<forall>j < length xs. \<not> cmp (xs ! j) (xs ! i)"
  using assms(2)
proof (induction xs)
  case Nil
  then show ?case by simp
next
  case (Cons x xs)
  from assms(1) have irr: "\<And>x. \<not> cmp x x" and tr: "\<And>x y z. cmp x y \<Longrightarrow> cmp y z \<Longrightarrow> cmp x z"
    unfolding strict_order_def by blast+
  show ?case
  proof (cases "xs = []")
    case True
    then show ?thesis using irr by simp
  next
    case False
    with Cons.IH obtain m where m: "m < length xs" "\<forall>j < length xs. \<not> cmp (xs ! j) (xs ! m)"
      by blast
    show ?thesis
    proof (cases "cmp x (xs ! m)")
      case True
      have "\<forall>j < length (x # xs). \<not> cmp ((x # xs) ! j) ((x # xs) ! 0)"
      proof (intro allI impI)
        fix j assume j: "j < length (x # xs)"
        show "\<not> cmp ((x # xs) ! j) ((x # xs) ! 0)"
        proof (cases j)
          case 0
          then show ?thesis using irr by simp
        next
          case (Suc k)
          with j m(2) have "\<not> cmp (xs ! k) (xs ! m)" by simp
          with True tr [of "xs ! k" x "xs ! m"] show ?thesis
            using Suc by auto
        qed
      qed
      then show ?thesis by (intro exI [of _ 0]) simp
    next
      case False
      have "\<forall>j < length (x # xs). \<not> cmp ((x # xs) ! j) ((x # xs) ! Suc m)"
      proof (intro allI impI)
        fix j assume j: "j < length (x # xs)"
        show "\<not> cmp ((x # xs) ! j) ((x # xs) ! Suc m)"
          using False m(2) j by (cases j) simp_all
      qed
      then show ?thesis using m(1) by (intro exI [of _ "Suc m"]) simp
    qed
  qed
qed

lemma find_SomeD: "find Q xs = Some x \<Longrightarrow> x \<in> set xs \<and> Q x"
  by (induction xs) (auto split: if_splits)

lemma min_index_minimal:
  assumes "strict_order cmp" and "xs \<noteq> []"
  shows "min_index cmp xs < length xs"
    and "j < length xs \<Longrightarrow> \<not> cmp (xs ! j) (xs ! min_index cmp xs)"
proof -
  let ?Q = "\<lambda>i. list_all (\<lambda>j. \<not> cmp (xs ! j) (xs ! i)) [0..<length xs]"
  from minimal_exists [OF assms] obtain i where "i < length xs" "?Q i"
    by (auto simp: list_all_iff)
  then have "find ?Q [0..<length xs] \<noteq> None"
    by (auto simp: find_None_iff)
  then obtain k where k: "find ?Q [0..<length xs] = Some k"
    by blast
  then have "k < length xs" "?Q k"
    using find_SomeD [of ?Q "[0..<length xs]" k] by auto
  with k show "min_index cmp xs < length xs"
    and "j < length xs \<Longrightarrow> \<not> cmp (xs ! j) (xs ! min_index cmp xs)"
    by (auto simp: min_index_def list_all_iff)
qed

lemma strict_order_converse: "strict_order cmp \<Longrightarrow> strict_order (\<lambda>x y. cmp y x)"
  unfolding strict_order_def by blast

lemma max_index_maximal:
  assumes "strict_order cmp" and "xs \<noteq> []"
  shows "max_index cmp xs < length xs"
    and "j < length xs \<Longrightarrow> \<not> cmp (xs ! max_index cmp xs) (xs ! j)"
proof -
  let ?Q = "\<lambda>i. list_all (\<lambda>j. \<not> cmp (xs ! i) (xs ! j)) [0..<length xs]"
  from minimal_exists [OF strict_order_converse [OF assms(1)] assms(2)]
  obtain i where "i < length xs" "?Q i"
    by (auto simp: list_all_iff)
  then have "find ?Q (rev [0..<length xs]) \<noteq> None"
    by (auto simp: find_None_iff)
  then obtain k where k: "find ?Q (rev [0..<length xs]) = Some k"
    by blast
  then have "k \<in> set (rev [0..<length xs])" "?Q k"
    using find_SomeD [of ?Q "rev [0..<length xs]" k] by blast+
  with k show "max_index cmp xs < length xs"
    and "j < length xs \<Longrightarrow> \<not> cmp (xs ! max_index cmp xs) (xs ! j)"
    by (auto simp: max_index_def list_all_iff)
qed

lemma scalar_less_irrefl: "\<not> scalar_less a a"
  by (cases a) simp_all

lemma scalar_less_trans: "scalar_less a b \<Longrightarrow> scalar_less b c \<Longrightarrow> scalar_less a c"
  by (cases a; cases b; cases c) simp_all

lemma strict_order_Fitness:
  "strict_order (\<lambda>lhs rhs. scalar_less (Fitness lhs ! k) (Fitness rhs ! k))"
  unfolding strict_order_def using scalar_less_irrefl scalar_less_trans by blast

lemma best_index_less: "ps \<noteq> [] \<Longrightarrow> best_index C ps < length ps"
  unfolding best_index_def Let_def
  using min_index_minimal(1) [OF strict_order_Fitness, of ps "Idx C"]
    max_index_maximal(1) [OF strict_order_Fitness, of ps "Idx C"]
  by simp



subsection \<open>One generation\<close>

lemma generate_length: "length (fst (generate draw n r)) = n"
proof (induction n arbitrary: r)
  case 0
  then show ?case by simp
next
  case (Suc n)
  obtain x r1 where d: "draw r = (x, r1)" by (cases "draw r")
  obtain xs r2 where g: "generate draw n r1 = (xs, r2)" by (cases "generate draw n r1")
  from Suc [of r1] show ?case by (simp add: d g)
qed

text \<open>What a generation that does not return leaves behind.\<close>

lemma generation_step_Inr:
  assumes "generation_step C config report sched g s = Some (Inr s')"
  obtains s5 s6 where
    "parents s5 = parents s"
    "offspring s5 = (offspring s)[0 := parents s ! best_index C (parents s)]"
    "reported s5 = (if report then reported s @ [g] else reported s)"
    "generation s5 = g"
    "\<not> terminate s"
    "\<not> converged (Maximization C)
        (Fitness (parents s ! best_index C (parents s)) ! Idx C)"
    "for_each (\<lambda>(t, i). iterate C config t i) sched s5 = Some s6"
    "parents s' = offspring (fold backfill [0..<PopulationSize config] s6)"
    "offspring s' = parents s6"
    "reported s' = reported s6"
    "generation s' = generation s6"
    "terminate s' = terminate s6"
proof -
  obtain sd r where gen: "generate (rand_draw C) (PopulationSize config) (random_gen s) = (sd, r)"
    by (cases "generate (rand_draw C) (PopulationSize config) (random_gen s)") auto
  let ?best = "parents s ! best_index C (parents s)"
  let ?s1 = "s\<lparr>generation := g, seeds := sd, random_gen := r\<rparr>"
  let ?s2 = "if converged (Maximization C) (Fitness ?best ! Idx C)
             then ?s1\<lparr>terminate := True\<rparr> else ?s1"
  let ?s3 = "if report then ?s2\<lparr>reported := reported ?s2 @ [g]\<rparr> else ?s2"
  let ?s5 = "?s3\<lparr>offspring := (offspring ?s3)[0 := ?best],
                 world := Prepare C (world ?s3) (parents ?s3)\<rparr>"
  from assms have nt: "\<not> terminate ?s3"
    by (auto simp: generation_step_def gen Let_def split: if_splits)
  then have conv: "\<not> converged (Maximization C) (Fitness ?best ! Idx C)"
    and t: "\<not> terminate s"
    by (auto split: if_splits)
  from assms nt obtain s6 where s6: "for_each (\<lambda>(t, i). iterate C config t i) sched ?s5 = Some s6"
    and s': "s' = (fold backfill [0..<PopulationSize config] s6)
        \<lparr>parents := offspring (fold backfill [0..<PopulationSize config] s6),
         offspring := parents (fold backfill [0..<PopulationSize config] s6)\<rparr>"
    by (auto simp: generation_step_def gen Let_def split: if_splits option.splits)
  show thesis
  proof (rule that [of ?s5 s6])
    show "for_each (\<lambda>(t, i). iterate C config t i) sched ?s5 = Some s6"
      by (rule s6)
  qed (use conv t s' in \<open>simp_all split: if_splits\<close>)
qed

lemma generation_step_Inl:
  assumes "generation_step C config report sched g s = Some (Inl s')"
  shows "reported s' = (if report then reported s @ [g] else reported s)"
    and "generation s' = g" and "parents s' = parents s"
proof -
  obtain sd r where gen: "generate (rand_draw C) (PopulationSize config) (random_gen s) = (sd, r)"
    by (cases "generate (rand_draw C) (PopulationSize config) (random_gen s)") auto
  from assms show "reported s' = (if report then reported s @ [g] else reported s)"
    and "generation s' = g" and "parents s' = parents s"
    by (auto simp: generation_step_def gen Let_def split: if_splits option.splits)
qed

lemma generation_step_reported:
  assumes "generation_step C config report sched g s = Some (Inr s')"
  shows "reported s' = (if report then reported s @ [g] else reported s)"
    and "generation s' = g"
proof -
  from assms obtain s5 s6 where
    a: "reported s5 = (if report then reported s @ [g] else reported s)" "generation s5 = g"
    and b: "for_each (\<lambda>(t, i). iterate C config t i) sched s5 = Some s6"
    and c: "reported s' = reported s6" "generation s' = generation s6"
    by (rule generation_step_Inr)
  from for_each_iterate_frame [OF b] a c
  show "reported s' = (if report then reported s @ [g] else reported s)"
    and "generation s' = g"
    by simp_all
qed



subsection \<open>Creation\<close>

lemma create_frame [simp]:
  "offspring (create C t i s) = offspring s" "reported (create C t i s) = reported s"
  "seeds (create C t i s) = seeds s" "terminate (create C t i s) = terminate s"
  by (simp_all add: create_def split: prod.splits)

lemma evaluate_frame [simp]:
  "offspring (evaluate C t i s) = offspring s" "reported (evaluate C t i s) = reported s"
  "seeds (evaluate C t i s) = seeds s" "terminate (evaluate C t i s) = terminate s"
  by (simp_all add: evaluate_def split: prod.splits)

lemma create_phase_frame [simp]:
  "offspring (fold (\<lambda>(t, i). create C t i) cs s) = offspring s"
  "reported (fold (\<lambda>(t, i). create C t i) cs s) = reported s"
  "seeds (fold (\<lambda>(t, i). create C t i) cs s) = seeds s"
  "terminate (fold (\<lambda>(t, i). create C t i) cs s) = terminate s"
  "length (parents (fold (\<lambda>(t, i). create C t i) cs s)) = length (parents s)"
  by (induction cs arbitrary: s) (simp_all split: prod.splits)

lemma evaluate_phase_frame [simp]:
  "offspring (fold (\<lambda>(t, i). evaluate C t i) es s) = offspring s"
  "reported (fold (\<lambda>(t, i). evaluate C t i) es s) = reported s"
  "seeds (fold (\<lambda>(t, i). evaluate C t i) es s) = seeds s"
  "terminate (fold (\<lambda>(t, i). evaluate C t i) es s) = terminate s"
  "length (parents (fold (\<lambda>(t, i). evaluate C t i) es s)) = length (parents s)"
  by (induction es arbitrary: s) (simp_all split: prod.splits)

lemma initialise_frame [simp]:
  "offspring (initialise C config cs es s) = offspring s"
  "reported (initialise C config cs es s) = reported s"
  "terminate (initialise C config cs es s) = False"
  "length (parents (initialise C config cs es s)) = length (parents s)"
  by (simp_all add: initialise_def Let_def split: prod.splits)







subsection \<open>The populations of a run\<close>

lemma population_at_loop:
  "population_at C config report scheds g s = Some sg \<Longrightarrow> g \<le> Generations config \<Longrightarrow>
   generations_loop C config report scheds 0 s = generations_loop C config report scheds g sg"
proof (induction g arbitrary: sg)
  case 0
  then show ?case by simp
next
  case (Suc g)
  from Suc.prems(1) obtain s1 where s1: "population_at C config report scheds g s = Some s1"
    and step: "generation_step C config report (scheds g) g s1 = Some (Inr sg)"
    by (auto split: option.splits sum.splits)
  have "generations_loop C config report scheds 0 s = generations_loop C config report scheds g s1"
    using Suc.IH [OF s1] Suc.prems(2) by simp
  also have "\<dots> = generations_loop C config report scheds (Suc g) sg"
    using Suc.prems(2) step by (subst generations_loop.simps) simp
  finally show ?case .
qed


subsection \<open>Reports\<close>

lemma generations_loop_reported:
  "generations_loop C config report scheds g s = Some s' \<Longrightarrow> g \<le> Generations config \<Longrightarrow>
   reported s' = reported s
       @ (if report then [g..<min (Suc (generation s')) (Generations config)] else [])
   \<and> g \<le> generation s' \<and> generation s' \<le> Generations config"
proof (induction C config report scheds g s rule: generations_loop.induct)
  case (1 C config report scheds g s)
  show ?case
  proof (cases "g < Generations config")
    case False
    with "1.prems" have "s' = s\<lparr>generation := g\<rparr>" and "g = Generations config"
      by (simp_all add: generations_loop.simps [of C config report scheds g s])
    then show ?thesis by simp
  next
    case True
    from "1.prems"(1) True
    consider s1 where "generation_step C config report (scheds g) g s = Some (Inl s1)" "s' = s1"
      | s1 where "generation_step C config report (scheds g) g s = Some (Inr s1)"
          "generations_loop C config report scheds (Suc g) s1 = Some s'"
      by (subst (asm) generations_loop.simps) (auto split: option.splits sum.splits)
    then show ?thesis
    proof cases
      case 1
      then show ?thesis
        using generation_step_Inl(1,2) [of C config report "scheds g" g s s'] True by simp
    next
      case 2
      have r1: "reported s1 = (if report then reported s @ [g] else reported s)"
        using generation_step_reported(1) [OF 2(1)] by simp
      have "reported s' = reported s1
            @ (if report then [Suc g..<min (Suc (generation s')) (Generations config)] else [])
          \<and> Suc g \<le> generation s' \<and> generation s' \<le> Generations config"
        using "1.IH" [OF True 2(1) _ 2(2)] True by simp
      then show ?thesis
        using r1 True by (simp add: upt_conv_Cons)
    qed
  qed
qed

subsection \<open>A run that nothing stops\<close>

lemma iterate_loop_never_stops:
  assumes "never_stops C"
    and "list_all (\<lambda>p. Genotype p = [] \<or> unconverged C p) (offspring s)"
  shows "\<exists>s'. iterate_loop C config t i s = Some s'
           \<and> \<not> terminate s' \<and> parents s' = parents s
           \<and> length (offspring s') = length (offspring s)
           \<and> list_all (\<lambda>p. Genotype p = [] \<or> unconverged C p) (offspring s')"
proof -
  from assms(1) have nt: "\<not> Terminate C (world s)"
    by (simp add: never_stops_def)
  from assms(1) obtain ind w1 r1 where rc: "recombinator C (world s) (rndlocal s t)
      (CrossoverProbability config) (MutationProbability config) = (Some ind, w1, r1)"
    and u: "unconverged C ind"
    unfolding never_stops_def by blast
  have "iterate_loop C config t i s
      = Some (s\<lparr>terminate := False, rndlocal := (rndlocal s)(t := r1), world := w1,
                offspring := (offspring s)[i := ind]\<rparr>)"
    using nt rc by (subst iterate_loop.simps) (simp add: Let_def)
  moreover have "list_all (\<lambda>p. Genotype p = [] \<or> unconverged C p) ((offspring s)[i := ind])"
    using assms(2) u by (auto simp: list_all_iff dest: set_update_subset_insert [THEN subsetD])
  ultimately show ?thesis
    by simp
qed

lemma for_each_never_stops:
  assumes "never_stops C"
  shows "\<not> terminate s \<Longrightarrow>
     list_all (\<lambda>p. Genotype p = [] \<or> unconverged C p) (offspring s) \<Longrightarrow>
     \<exists>s'. for_each (\<lambda>(t, i). iterate C config t i) sched s = Some s'
           \<and> \<not> terminate s' \<and> parents s' = parents s
           \<and> length (offspring s') = length (offspring s)
           \<and> list_all (\<lambda>p. Genotype p = [] \<or> unconverged C p) (offspring s')"
proof (induction sched arbitrary: s)
  case Nil
  then show ?case by simp
next
  case (Cons x sched)
  obtain t i where x: "x = (t, i)" by (cases x)
  let ?s = "s\<lparr>rndlocal := (rndlocal s)(t := rand_seeded C (seeds s ! i))\<rparr>"
  have "list_all (\<lambda>p. Genotype p = [] \<or> unconverged C p) (offspring ?s)"
    using Cons.prems(2) by simp
  from iterate_loop_never_stops [OF assms this, of config t i]
  obtain s1 where s1: "iterate C config t i s = Some s1" "\<not> terminate s1"
      "parents s1 = parents s" "length (offspring s1) = length (offspring s)"
      "list_all (\<lambda>p. Genotype p = [] \<or> unconverged C p) (offspring s1)"
    by (auto simp: iterate_def)
  from Cons.IH [OF s1(2) s1(5)] s1(1,3,4) show ?case
    by (auto simp: x)
qed

lemma fold_backfill_other:
  "j \<notin> set js \<Longrightarrow> offspring (fold backfill js s) ! j = offspring s ! j"
  by (induction js arbitrary: s) (simp_all add: backfill_def)

lemma fold_backfill_nth:
  "j < length (offspring s) \<Longrightarrow> j \<in> set js \<Longrightarrow>
   offspring (fold backfill js s) ! j
     = (if Genotype (offspring s ! j) = [] then parents s ! j else offspring s ! j)"
proof (induction js arbitrary: s)
  case Nil
  then show ?case by simp
next
  case (Cons i js)
  show ?case
  proof (cases "i = j")
    case False
    with Cons.prems have "j \<in> set js" by simp
    then show ?thesis
      using Cons.IH [of "backfill i s"] Cons.prems(1) False by (simp add: backfill_nth)
  next
    case True
    let ?x = "if Genotype (offspring s ! j) = [] then parents s ! j else offspring s ! j"
    have x: "offspring (backfill i s) ! j = ?x"
      using True Cons.prems(1) by (simp add: backfill_nth)
    show ?thesis
    proof (cases "j \<in> set js")
      case False
      then show ?thesis
        using x by (simp add: fold_backfill_other)
    next
      case jin: True
      have "offspring (fold backfill js (backfill i s)) ! j
          = (if Genotype ?x = [] then parents s ! j else ?x)"
        using Cons.IH [of "backfill i s"] Cons.prems(1) jin x by simp
      also have "\<dots> = ?x"
        by auto
      finally show ?thesis by simp
    qed
  qed
qed

lemma generation_step_steady:
  assumes ns: "never_stops C" and st: "steady C config s"
  shows "\<exists>s'. generation_step C config report sched g s = Some (Inr s') \<and> steady C config s'"
proof -
  let ?n = "PopulationSize config"
  let ?Q = "\<lambda>p. Genotype p = [] \<or> unconverged C p"
  let ?best = "parents s ! best_index C (parents s)"
  from st have nt: "\<not> terminate s" and n: "0 < ?n" and lp: "length (parents s) = ?n"
    and lo: "length (offspring s) = ?n" and up: "list_all (unconverged C) (parents s)"
    and uo: "list_all ?Q (offspring s)"
    by (simp_all add: steady_def)
  from n lp have ne: "parents s \<noteq> []" by auto
  have ub: "unconverged C ?best"
    using up best_index_less [OF ne, of C] by (simp add: list_all_length)
  obtain sd r where gen: "generate (rand_draw C) ?n (random_gen s) = (sd, r)"
    by (cases "generate (rand_draw C) ?n (random_gen s)") auto
  let ?s1 = "s\<lparr>generation := g, seeds := sd, random_gen := r\<rparr>"
  let ?s3 = "if report then ?s1\<lparr>reported := reported ?s1 @ [g]\<rparr> else ?s1"
  let ?s5 = "?s3\<lparr>offspring := (offspring ?s3)[0 := ?best],
      world := Prepare C (world ?s3) (parents ?s3)\<rparr>"
  have o5: "offspring ?s5 = (offspring s)[0 := ?best]" and p5: "parents ?s5 = parents s"
    and t5: "\<not> terminate ?s5"
    using nt by simp_all
  have "list_all ?Q ((offspring s)[0 := ?best])"
    using uo ub by (auto simp: list_all_iff dest: set_update_subset_insert [THEN subsetD])
  then have "list_all ?Q (offspring ?s5)"
    by (simp only: o5)
  with t5 have "\<exists>s'. for_each (\<lambda>(t, i). iterate C config t i) sched ?s5 = Some s'
           \<and> \<not> terminate s' \<and> parents s' = parents ?s5
           \<and> length (offspring s') = length (offspring ?s5)
           \<and> list_all ?Q (offspring s')"
    by (rule for_each_never_stops [OF ns])
  then obtain s6 where s6: "for_each (\<lambda>(t, i). iterate C config t i) sched ?s5 = Some s6"
      "\<not> terminate s6" "parents s6 = parents s" "length (offspring s6) = ?n"
      "list_all ?Q (offspring s6)"
    unfolding o5 p5 using lo by auto
  let ?s7 = "fold backfill [0..<?n] s6"
  let ?s' = "?s7\<lparr>parents := offspring ?s7, offspring := parents ?s7\<rparr>"
  have "\<not> converged (Maximization C) (Fitness ?best ! Idx C)"
    using ub by (simp add: unconverged_def)
  then have step: "generation_step C config report sched g s = Some (Inr ?s')"
    using nt s6(1) by (cases report) (simp_all add: generation_step_def gen Let_def)
  have "list_all (unconverged C) (offspring ?s7)"
    unfolding list_all_length
  proof (intro allI impI)
    fix j assume "j < length (offspring ?s7)"
    then have j: "j < ?n" using s6(4) by simp
    then have "offspring ?s7 ! j
        = (if Genotype (offspring s6 ! j) = [] then parents s6 ! j else offspring s6 ! j)"
      using s6(4) by (intro fold_backfill_nth) simp_all
    moreover have "unconverged C (parents s6 ! j)"
      using up j lp s6(3) by (simp add: list_all_length)
    moreover have "?Q (offspring s6 ! j)"
      using s6(4,5) j by (simp add: list_all_length)
    ultimately show "unconverged C (offspring ?s7 ! j)"
      by auto
  qed
  then have "steady C config ?s'"
    using s6(2,3,4) n lp up by (simp add: steady_def list_all_iff)
  with step show ?thesis
    by blast
qed

lemma generations_loop_steady:
  assumes ns: "never_stops C"
  shows "steady C config s \<Longrightarrow> g \<le> Generations config \<Longrightarrow>
     \<exists>s'. generations_loop C config report scheds g s = Some s'
           \<and> generation s' = Generations config"
proof (induction "Generations config - g" arbitrary: g s)
  case 0
  then have "g = Generations config" by simp
  then show ?case
    by (subst generations_loop.simps) simp
next
  case (Suc k)
  then have lt: "g < Generations config" by simp
  from generation_step_steady [OF ns Suc.prems(1), of report "scheds g" g]
  obtain s1 where s1: "generation_step C config report (scheds g) g s = Some (Inr s1)"
      "steady C config s1"
    by blast
  have "\<exists>s'. generations_loop C config report scheds (Suc g) s1 = Some s'
      \<and> generation s' = Generations config"
    using Suc.hyps(2) lt by (intro Suc.hyps(1) [OF _ s1(2)]) simp_all
  then show ?case
    using lt s1(1) by (subst generations_loop.simps) simp
qed

lemma create_phase_sized:
  assumes "sized C (parents s)"
  shows "sized C (parents (fold (\<lambda>(t, i). create C t i) cs s))"
proof (rule sizedI)
  fix j assume "j < length (parents (fold (\<lambda>(t, i). create C t i) cs s))"
  then have j: "j < length (parents s)"
    by simp
  then show "Idx C < length (Fitness (parents (fold (\<lambda>(t, i). create C t i) cs s) ! j))"
    using create_phase_Fitness_length [of C cs s] sized_nth [OF assms j] by simp
qed

lemma initialise_steady:
  assumes ns: "never_stops C" and fs: "fixed_size C"
    and d: "Idx C < d" and n: "0 < PopulationSize config"
    and es: "{..<PopulationSize config} \<subseteq> snd ` set es"
  shows "steady C config (initialise C config cs es (GeneticProgrammingAlgorithm C config d r w))"
proof -
  let ?n = "PopulationSize config"
  let ?s0 = "GeneticProgrammingAlgorithm C config d r w"
  obtain sd r1 where gen: "generate (rand_draw C) ?n (random_gen ?s0) = (sd, r1)"
    by (cases "generate (rand_draw C) ?n (random_gen ?s0)") auto
  let ?s1 = "?s0\<lparr>seeds := sd, random_gen := r1, terminate := False\<rparr>"
  let ?s2 = "fold (\<lambda>(t, i). create C t i) cs ?s1"
  have init: "initialise C config cs es ?s0 = fold (\<lambda>(t, i). evaluate C t i) es ?s2"
    by (simp add: initialise_def gen)
  have l0: "length (parents ?s1) = ?n"
    by (simp add: GeneticProgrammingAlgorithm_def)
  have "sized C (parents ?s1)"
    using d by (simp add: sized_def GeneticProgrammingAlgorithm_def default_individual_def
        list_all_iff)
  then have sz: "sized C (parents ?s2)"
    by (rule create_phase_sized)
  have l2: "length (parents ?s2) = ?n"
    using l0 by simp
  have Q: "\<And>w r ind. \<not> converged (Maximization C)
      (let fitness = fst (evaluator C w r ind) in if isfinite fitness then fitness else worst C)"
    using ns by (simp add: never_stops_def Let_def)
  have "\<forall>j < length (parents ?s2). j \<in> {} \<union> snd ` set es \<longrightarrow>
      \<not> converged (Maximization C)
          (Fitness (parents (fold (\<lambda>(t, i). evaluate C t i) es ?s2) ! j) ! Idx C)"
    using evaluate_phase_stores [OF fs, of "\<lambda>v. \<not> converged (Maximization C) v" ?s2 "{}" es,
        OF Q sz]
    by simp
  moreover have "\<And>j. j < ?n \<Longrightarrow> j \<in> snd ` set es"
    using es by blast
  ultimately have "list_all (unconverged C) (parents (initialise C config cs es ?s0))"
    unfolding init list_all_length unconverged_def using l2 by simp
  moreover have "list_all (\<lambda>p. Genotype p = [] \<or> unconverged C p)
      (offspring (initialise C config cs es ?s0))"
    by (simp add: GeneticProgrammingAlgorithm_def default_individual_def list_all_iff)
  moreover have "length (parents (initialise C config cs es ?s0)) = ?n"
      "length (offspring (initialise C config cs es ?s0)) = ?n"
    by (simp_all add: GeneticProgrammingAlgorithm_def)
  ultimately show ?thesis
    using n by (simp add: steady_def)
qed

subsection \<open>Finite fitness\<close>

text \<open>
  A round of \<open>iterate\<close> leaves the offspring as they are or stores in its slot an
  individual that the recombinator yielded.
\<close>

lemma iterate_loop_yield:
  assumes "iterate_loop C config t i s = Some s'"
  shows "offspring s' = offspring s
       \<or> (\<exists>ind w r w1 r1.
             recombinator C w r (CrossoverProbability config) (MutationProbability config)
               = (Some ind, w1, r1)
             \<and> offspring s' = (offspring s)[i := ind])"
proof (rule iterate_loop.raw_induct
    [where P = "\<lambda>C config t i s s'.
        offspring s' = offspring s
        \<or> (\<exists>ind w r w1 r1.
              recombinator C w r (CrossoverProbability config) (MutationProbability config)
                = (Some ind, w1, r1)
              \<and> offspring s' = (offspring s)[i := ind])", OF _ assms])
  fix f :: "('a, 'b) collaborators \<Rightarrow> GeneticAlgorithmConfig \<Rightarrow> nat \<Rightarrow> nat
      \<Rightarrow> ('a, 'b) algorithm \<Rightarrow> ('a, 'b) algorithm option"
  fix C config t i s s'
  assume IH: "\<And>C config t i s s'. f C config t i s = Some s' \<Longrightarrow>
        offspring s' = offspring s
        \<or> (\<exists>ind w r w1 r1.
              recombinator C w r (CrossoverProbability config) (MutationProbability config)
                = (Some ind, w1, r1)
              \<and> offspring s' = (offspring s)[i := ind])"
    and body: "(let s1 = s\<lparr>terminate := Terminate C (world s)\<rparr> in
      if terminate s1 then Some s1
      else (case recombinator C (world s1) (rndlocal s1 t)
                   (CrossoverProbability config) (MutationProbability config) of
              (Some recombinant, w, r) \<Rightarrow>
                Some (s1\<lparr>rndlocal := (rndlocal s1)(t := r), world := w,
                         offspring := (offspring s1)[i := recombinant]\<rparr>)
            | (None, w, r) \<Rightarrow>
                f C config t i (s1\<lparr>rndlocal := (rndlocal s1)(t := r), world := w\<rparr>))) = Some s'"
  show "offspring s' = offspring s
        \<or> (\<exists>ind w r w1 r1.
              recombinator C w r (CrossoverProbability config) (MutationProbability config)
                = (Some ind, w1, r1)
              \<and> offspring s' = (offspring s)[i := ind])"
  proof (cases "Terminate C (world s)")
    case True
    with body show ?thesis by (auto simp: Let_def)
  next
    case False
    obtain res w r where rc: "recombinator C (world s) (rndlocal s t)
        (CrossoverProbability config) (MutationProbability config) = (res, w, r)"
      by (cases "recombinator C (world s) (rndlocal s t)
        (CrossoverProbability config) (MutationProbability config)") auto
    show ?thesis
    proof (cases res)
      case None
      with body False rc
      have "f C config t i
          (s\<lparr>terminate := False, rndlocal := (rndlocal s)(t := r), world := w\<rparr>) = Some s'"
        by (simp add: Let_def)
      from IH [OF this] show ?thesis by simp
    next
      case (Some recombinant)
      with body False rc have "offspring s' = (offspring s)[i := recombinant]"
        by (auto simp: Let_def)
      with rc Some show ?thesis
        by blast
    qed
  qed
qed

lemma iterate_finite:
  assumes "yields_finite C" and "iterate C config t i s = Some s'"
    and "list_all (\<lambda>p. Genotype p = [] \<or> isfinite (Fitness p ! Idx C)) (offspring s)"
  shows "list_all (\<lambda>p. Genotype p = [] \<or> isfinite (Fitness p ! Idx C)) (offspring s')"
proof -
  let ?s = "s\<lparr>rndlocal := (rndlocal s)(t := rand_seeded C (seeds s ! i))\<rparr>"
  from assms(2) have "iterate_loop C config t i ?s = Some s'"
    by (simp add: iterate_def)
  from iterate_loop_yield [OF this]
  consider "offspring s' = offspring s"
    | ind w r w1 r1 where
        "recombinator C w r (CrossoverProbability config) (MutationProbability config)
           = (Some ind, w1, r1)"
        "offspring s' = (offspring s)[i := ind]"
    by auto
  then show ?thesis
  proof cases
    case 1
    with assms(3) show ?thesis by simp
  next
    case 2
    from assms(1) 2(1) have "isfinite (Fitness ind ! Idx C)"
      unfolding yields_finite_def by blast
    with assms(3) show ?thesis
      unfolding 2(2) by (auto simp: list_all_iff dest: set_update_subset_insert [THEN subsetD])
  qed
qed

lemma for_each_iterate_finite:
  assumes "yields_finite C"
  shows "for_each (\<lambda>(t, i). iterate C config t i) sched s = Some s' \<Longrightarrow>
     list_all (\<lambda>p. Genotype p = [] \<or> isfinite (Fitness p ! Idx C)) (offspring s) \<Longrightarrow>
     list_all (\<lambda>p. Genotype p = [] \<or> isfinite (Fitness p ! Idx C)) (offspring s')"
proof (induction sched arbitrary: s)
  case Nil
  then show ?case by simp
next
  case (Cons x sched)
  obtain t i where x: "x = (t, i)" by (cases x)
  from Cons.prems(1) obtain s1 where s1: "iterate C config t i s = Some s1"
      and rest: "for_each (\<lambda>(t, i). iterate C config t i) sched s1 = Some s'"
    by (auto simp: x split: option.splits)
  from iterate_finite [OF assms s1 Cons.prems(2)] rest show ?case
    by (rule Cons.IH [rotated])
qed

text \<open>
  One generation keeps \<open>finite_population\<close>: the elite is a parent, a slot of the
  offspring phase holds what the recombinator yielded, and an empty slot is filled with
  a parent.
\<close>

lemma generation_step_finite:
  assumes step: "generation_step C config report sched g s = Some (Inr s')"
    and yf: "yields_finite C" and fp: "finite_population C config s"
    and n: "0 < PopulationSize config"
  shows "finite_population C config s'"
proof -
  let ?n = "PopulationSize config"
  let ?F = "\<lambda>p. isfinite (Fitness p ! Idx C)"
  let ?Q = "\<lambda>p. Genotype p = [] \<or> isfinite (Fitness p ! Idx C)"
  let ?best = "parents s ! best_index C (parents s)"
  from fp have lp: "length (parents s) = ?n" and lo: "length (offspring s) = ?n"
    and fin: "list_all ?F (parents s)" and fo: "list_all ?Q (offspring s)"
    by (simp_all add: finite_population_def)
  from n lp have ne: "parents s \<noteq> []" by auto
  have fb: "?F ?best"
    using fin best_index_less [OF ne, of C] by (simp add: list_all_length)
  from step obtain s5 s6 where
    p5: "parents s5 = parents s" and o5: "offspring s5 = (offspring s)[0 := ?best]"
    and fe: "for_each (\<lambda>(t, i). iterate C config t i) sched s5 = Some s6"
    and p': "parents s' = offspring (fold backfill [0..<?n] s6)"
    and o': "offspring s' = parents s6"
    by (rule generation_step_Inr)
  have "list_all ?Q (offspring s5)"
    unfolding o5 using fo fb
    by (auto simp: list_all_iff dest: set_update_subset_insert [THEN subsetD])
  with fe have f6: "list_all ?Q (offspring s6)"
    by (rule for_each_iterate_finite [OF yf])
  from for_each_iterate_frame [OF fe]
  have p6: "parents s6 = parents s" and l6: "length (offspring s6) = ?n"
    using p5 o5 lo by simp_all
  have "list_all ?F (parents s')"
    unfolding list_all_length
  proof (intro allI impI)
    fix j assume "j < length (parents s')"
    then have j: "j < ?n"
      using p' l6 by simp
    then have "offspring (fold backfill [0..<?n] s6) ! j
        = (if Genotype (offspring s6 ! j) = [] then parents s6 ! j else offspring s6 ! j)"
      using l6 by (intro fold_backfill_nth) simp_all
    moreover have "?F (parents s6 ! j)"
      using fin j lp p6 by (simp add: list_all_length)
    moreover have "?Q (offspring s6 ! j)"
      using f6 j l6 by (simp add: list_all_length)
    ultimately show "?F (parents s' ! j)"
      unfolding p' by auto
  qed
  moreover have "list_all ?Q (offspring s')"
    using fin o' p6 by (simp add: list_all_iff)
  ultimately show ?thesis
    using p' l6 o' p6 lp by (simp add: finite_population_def)
qed

lemma population_at_finite:
  assumes "yields_finite C" and "finite_population C config s" and "0 < PopulationSize config"
  shows "population_at C config report scheds g s = Some sg \<Longrightarrow> finite_population C config sg"
proof (induction g arbitrary: sg)
  case 0
  then show ?case using assms(2) by simp
next
  case (Suc g)
  from Suc.prems obtain s1 where s1: "population_at C config report scheds g s = Some s1"
    and step: "generation_step C config report (scheds g) g s1 = Some (Inr sg)"
    by (auto split: option.splits sum.splits)
  from step assms(1) Suc.IH [OF s1] assms(3) show ?case
    by (rule generation_step_finite)
qed

text \<open>After creation and evaluation, from the buffers that the constructor made.\<close>

lemma initialise_finite:
  assumes fs: "fixed_size C" and fw: "isfinite (worst C)" and d: "Idx C < d"
    and es: "{..<PopulationSize config} \<subseteq> snd ` set es"
  shows "finite_population C config
    (initialise C config cs es (GeneticProgrammingAlgorithm C config d r w))"
proof -
  let ?n = "PopulationSize config"
  let ?s0 = "GeneticProgrammingAlgorithm C config d r w"
  obtain sd r1 where gen: "generate (rand_draw C) ?n (random_gen ?s0) = (sd, r1)"
    by (cases "generate (rand_draw C) ?n (random_gen ?s0)") auto
  let ?s1 = "?s0\<lparr>seeds := sd, random_gen := r1, terminate := False\<rparr>"
  let ?s2 = "fold (\<lambda>(t, i). create C t i) cs ?s1"
  have init: "initialise C config cs es ?s0 = fold (\<lambda>(t, i). evaluate C t i) es ?s2"
    by (simp add: initialise_def gen)
  have l0: "length (parents ?s1) = ?n"
    by (simp add: GeneticProgrammingAlgorithm_def)
  have "sized C (parents ?s1)"
    using d by (simp add: sized_def GeneticProgrammingAlgorithm_def default_individual_def
        list_all_iff)
  then have sz: "sized C (parents ?s2)"
    by (rule create_phase_sized)
  have l2: "length (parents ?s2) = ?n"
    using l0 by simp
  have Q: "\<And>w r ind. isfinite
      (let fitness = fst (evaluator C w r ind) in if isfinite fitness then fitness else worst C)"
    using fw by (simp add: Let_def)
  have "\<forall>j < length (parents ?s2). j \<in> {} \<union> snd ` set es \<longrightarrow>
      isfinite (Fitness (parents (fold (\<lambda>(t, i). evaluate C t i) es ?s2) ! j) ! Idx C)"
    using evaluate_phase_stores [OF fs, of isfinite ?s2 "{}" es, OF Q sz]
    by simp
  moreover have "\<And>j. j < ?n \<Longrightarrow> j \<in> snd ` set es"
    using es by blast
  ultimately have "list_all (\<lambda>p. isfinite (Fitness p ! Idx C))
      (parents (initialise C config cs es ?s0))"
    unfolding init list_all_length using l2 by simp
  moreover have "list_all (\<lambda>p. Genotype p = [] \<or> isfinite (Fitness p ! Idx C))
      (offspring (initialise C config cs es ?s0))"
    by (simp add: GeneticProgrammingAlgorithm_def default_individual_def list_all_iff)
  moreover have "length (parents (initialise C config cs es ?s0)) = ?n"
      "length (offspring (initialise C config cs es ?s0)) = ?n"
    by (simp_all add: GeneticProgrammingAlgorithm_def)
  ultimately show ?thesis
    by (simp add: finite_population_def)
qed

subsection \<open>The best fitness\<close>





subsection \<open>The claims about the loop\<close>

lemma demo_fields [simp]:
  "SelectableIndex demo = 0" "Idx demo = 0" "Maximization demo = False"
  "Terminate demo = (\<lambda>w. False)"
  "creator demo = (\<lambda>r. ([leaf], Suc r))"
  "evaluator demo = (\<lambda>w r ind. (if even r then PosInf else Finite (real (Suc r)), ind, Suc w, Suc r))"
  "recombinator demo = (\<lambda>w r pc pm. (Some (demo_individual (real (Suc r))), Suc w, Suc r))"
  by (simp_all add: demo_def Idx_def)

lemma worst_demo [simp]: "worst demo = Finite 1000"
  by (simp add: worst_def demo_def)

lemma demo_config_fields [simp]:
  "PopulationSize (demo_config n g) = n" "Generations (demo_config n g) = g"
  by (simp_all add: demo_config_def)

lemma fixed_size_demo: "fixed_size demo"
  by (simp add: fixed_size_def)

lemma threshold_less_one: "threshold < 1"
  by (simp add: threshold_def)

lemma never_stops_demo: "never_stops demo"
  using threshold_less_one
  by (auto simp: never_stops_def unconverged_def demo_individual_def)



lemma snd_sequential [simp]: "snd ` set (sequential a b) = {a..<b}"
  by (auto simp: sequential_def image_iff)

lemma demo_limits [simp]:
  "scalar_min demo = Finite (- 1000)" "scalar_max demo = Finite 1000"
  by (simp_all add: demo_def)

lemma yields_finite_demo: "yields_finite demo"
  by (auto simp: yields_finite_def demo_individual_def)

text \<open>
  Claim C7, amended. In the slot it is run on, \<open>evaluate\<close> stores the fitness that the
  evaluator returned if that is finite, and otherwise the worst value: the scalar
  minimum when maximizing and the scalar maximum when minimizing. With finite scalar
  limits, after the evaluation phase the primary fitness of every parent is finite,
  whatever the schedules. The loop stores what the recombinator yields as it is; if the
  recombinator yields only individuals with a finite primary fitness, the parents of
  every generation that a run reaches, which are what the loop ranks and hands to
  \<open>Prepare\<close>, have a finite primary fitness.
\<close>

theorem nonfinite_fitness_replaced:
  "(fixed_size C \<and> i < length (parents s) \<and> Idx C < length (Fitness (parents s ! i)) \<longrightarrow>
      Fitness (parents (evaluate C t i s) ! i) ! Idx C
        = (let fitness = fst (evaluator C (world s) (rndlocal s t) (parents s ! i))
           in if isfinite fitness then fitness
              else if Maximization C then scalar_min C else scalar_max C))
   \<and> (fixed_size C \<and> isfinite (scalar_min C) \<and> isfinite (scalar_max C)
        \<and> sized C (parents s) \<and> {..<length (parents s)} \<subseteq> snd ` set es \<longrightarrow>
      list_all (\<lambda>p. isfinite (Fitness p ! Idx C)) (parents (initialise C config cs es s)))
   \<and> (fixed_size C \<and> isfinite (scalar_min C) \<and> isfinite (scalar_max C) \<and> yields_finite C
        \<and> Idx C < d \<and> 0 < PopulationSize config
        \<and> {..<PopulationSize config} \<subseteq> snd ` set es
        \<and> population_at C config report scheds g
             (initialise C config cs es (GeneticProgrammingAlgorithm C config d r w)) = Some sg \<longrightarrow>
      list_all (\<lambda>p. isfinite (Fitness p ! Idx C)) (parents sg))"
proof (intro conjI impI)
  assume "fixed_size C \<and> i < length (parents s) \<and> Idx C < length (Fitness (parents s ! i))"
  then show "Fitness (parents (evaluate C t i s) ! i) ! Idx C
      = (let fitness = fst (evaluator C (world s) (rndlocal s t) (parents s ! i))
         in if isfinite fitness then fitness
            else if Maximization C then scalar_min C else scalar_max C)"
    using evaluate_stores [of C i s t] by (simp add: worst_def Let_def)
next
  assume a: "fixed_size C \<and> isfinite (scalar_min C) \<and> isfinite (scalar_max C)
      \<and> sized C (parents s) \<and> {..<length (parents s)} \<subseteq> snd ` set es"
  then have fs: "fixed_size C" and sz: "sized C (parents s)"
    and cover: "\<And>j. j < length (parents s) \<Longrightarrow> j \<in> snd ` set es"
    by auto
  from a have fw: "isfinite (worst C)"
    by (simp add: worst_def)
  obtain sd r where gen: "generate (rand_draw C) (PopulationSize config) (random_gen s) = (sd, r)"
    by (cases "generate (rand_draw C) (PopulationSize config) (random_gen s)") auto
  let ?s1 = "s\<lparr>seeds := sd, random_gen := r, terminate := False\<rparr>"
  let ?s2 = "fold (\<lambda>(t, i). create C t i) cs ?s1"
  have init: "initialise C config cs es s = fold (\<lambda>(t, i). evaluate C t i) es ?s2"
    by (simp add: initialise_def gen)
  have "sized C (parents ?s1)"
    using sz by simp
  then have sz2: "sized C (parents ?s2)"
    by (rule create_phase_sized)
  have Q: "\<And>w r ind. isfinite
      (let fitness = fst (evaluator C w r ind) in if isfinite fitness then fitness else worst C)"
    using fw by (simp add: Let_def)
  have "\<forall>j < length (parents ?s2). j \<in> {} \<union> snd ` set es \<longrightarrow>
      isfinite (Fitness (parents (fold (\<lambda>(t, i). evaluate C t i) es ?s2) ! j) ! Idx C)"
    using evaluate_phase_stores [OF fs, of isfinite ?s2 "{}" es, OF Q sz2] by simp
  then show "list_all (\<lambda>p. isfinite (Fitness p ! Idx C))
      (parents (initialise C config cs es s))"
    unfolding init list_all_length using cover by simp
next
  assume a: "fixed_size C \<and> isfinite (scalar_min C) \<and> isfinite (scalar_max C) \<and> yields_finite C
      \<and> Idx C < d \<and> 0 < PopulationSize config
      \<and> {..<PopulationSize config} \<subseteq> snd ` set es
      \<and> population_at C config report scheds g
           (initialise C config cs es (GeneticProgrammingAlgorithm C config d r w)) = Some sg"
  then have fw: "isfinite (worst C)"
    by (simp add: worst_def)
  from a have yf: "yields_finite C" and n: "0 < PopulationSize config"
    and pa: "population_at C config report scheds g
        (initialise C config cs es (GeneticProgrammingAlgorithm C config d r w)) = Some sg"
    by simp_all
  have "finite_population C config
      (initialise C config cs es (GeneticProgrammingAlgorithm C config d r w))"
    using a fw by (intro initialise_finite) simp_all
  from population_at_finite [OF yf this n pa] have "finite_population C config sg" .
  then show "list_all (\<lambda>p. isfinite (Fitness p ! Idx C)) (parents sg)"
    by (simp add: finite_population_def)
qed

theorem nonfinite_fitness_replaced_witness:
  "fixed_size demo \<and> yields_finite demo
   \<and> isfinite (scalar_min demo) \<and> isfinite (scalar_max demo) \<and> Idx demo < 1
   \<and> Fitness (parents (evaluate demo 0 1
        (GeneticProgrammingAlgorithm demo (demo_config 3 3) 1 0 0)) ! 1) ! Idx demo
       = Finite 1000
   \<and> fitnesses (initialise demo (demo_config 3 3) (sequential 0 3) (sequential 0 3)
        (GeneticProgrammingAlgorithm demo (demo_config 3 3) 1 0 0))
       = [[Finite 4], [Finite 1000], [Finite 6]]
   \<and> list_all (\<lambda>p. isfinite (Fitness p ! Idx demo))
        (parents (initialise demo (demo_config 3 3) (sequential 0 3) (sequential 0 3)
           (GeneticProgrammingAlgorithm demo (demo_config 3 3) 1 0 0)))
   \<and> (\<exists>sg. population_at demo (demo_config 3 3) True (offspring_schedule 3) 2
              (initialise demo (demo_config 3 3) (sequential 0 3) (sequential 0 3)
                 (GeneticProgrammingAlgorithm demo (demo_config 3 3) 1 0 0)) = Some sg
          \<and> list_all (\<lambda>p. isfinite (Fitness p ! Idx demo)) (parents sg))"
proof -
  let ?config = "demo_config 3 3"
  let ?s0 = "GeneticProgrammingAlgorithm demo ?config 1 0 0"
  let ?init = "initialise demo ?config (sequential 0 3) (sequential 0 3) ?s0"
  have lim: "isfinite (scalar_min demo)" "isfinite (scalar_max demo)" "Idx demo < 1"
    by simp_all
  have i: "1 < length (parents ?s0)" "Idx demo < length (Fitness (parents ?s0 ! 1))"
    by (simp_all add: GeneticProgrammingAlgorithm_def default_individual_def)
  have ev: "fst (evaluator demo (world ?s0) (rndlocal ?s0 0) (parents ?s0 ! 1)) = PosInf"
    by (simp add: GeneticProgrammingAlgorithm_def demo_def)
  have sz: "sized demo (parents ?s0)"
    by code_simp
  have cover: "{..<length (parents ?s0)} \<subseteq> snd ` set (sequential 0 3)"
    by (auto simp: GeneticProgrammingAlgorithm_def)
  have cover': "{..<PopulationSize ?config} \<subseteq> snd ` set (sequential 0 3)"
    by auto
  have v: "fitnesses ?init = [[Finite 4], [Finite 1000], [Finite 6]]"
    by code_simp
  have "(case population_at demo ?config True (offspring_schedule 3) 2 ?init of
           None \<Rightarrow> False | Some s \<Rightarrow> True)"
    by code_simp
  then obtain sg where sg: "population_at demo ?config True (offspring_schedule 3) 2 ?init = Some sg"
    by (auto split: option.splits)
  note inst = nonfinite_fitness_replaced [where C = demo and i = 1 and s = ?s0 and t = 0
      and es = "sequential 0 3" and cs = "sequential 0 3" and config = ?config and d = 1
      and report = True and scheds = "offspring_schedule 3" and g = 2 and r = 0 and w = 0
      and sg = sg]
  from inst fixed_size_demo i ev
  have one: "Fitness (parents (evaluate demo 0 1 ?s0) ! 1) ! Idx demo = Finite 1000"
    by (simp add: Let_def)
  from inst fixed_size_demo lim sz cover
  have two: "list_all (\<lambda>p. isfinite (Fitness p ! Idx demo)) (parents ?init)"
    by blast
  from inst fixed_size_demo lim yields_finite_demo cover' sg
  have three: "list_all (\<lambda>p. isfinite (Fitness p ! Idx demo)) (parents sg)"
    by simp
  from fixed_size_demo yields_finite_demo lim one v two sg three show ?thesis
    by blast
qed

text \<open>
  The claim C7 as it was stated has no value that is not finite reach ranking or
  selection. With a recombinator that yields an individual whose fitness is NaN, the
  parents of generation \<open>1\<close> are the elite and two such individuals; when maximizing,
  the ranking of generation \<open>1\<close> takes the last of them for the best, and the parents of
  generation \<open>2\<close> all have the fitness NaN.
\<close>

theorem recombinant_fitness_counterexample:
  "map_option fitnesses
     (population_at demo_nan (demo_config 3 3) True (offspring_schedule 3) 1
        (initialise demo_nan (demo_config 3 3) (sequential 0 3) (sequential 0 3)
           (GeneticProgrammingAlgorithm demo_nan (demo_config 3 3) 1 0 0)))
     = Some [[Finite 6], [NaN], [NaN]]
   \<and> map_option (best_index demo_nan \<circ> parents)
       (population_at demo_nan (demo_config 3 3) True (offspring_schedule 3) 1
          (initialise demo_nan (demo_config 3 3) (sequential 0 3) (sequential 0 3)
             (GeneticProgrammingAlgorithm demo_nan (demo_config 3 3) 1 0 0)))
     = Some 2
   \<and> map_option fitnesses
       (population_at demo_nan (demo_config 3 3) True (offspring_schedule 3) 2
          (initialise demo_nan (demo_config 3 3) (sequential 0 3) (sequential 0 3)
             (GeneticProgrammingAlgorithm demo_nan (demo_config 3 3) 1 0 0)))
     = Some [[NaN], [NaN], [NaN]]"
  by code_simp

text \<open>
  Claim C6. A generation is reported before the termination flag is tested: a run with
  a callback that returns in generation \<open>g\<close> has reported the generations
  \<open>0, \<dots>, g\<close>, the last one included, and a run that ends at the cap has reported
  \<open>0, \<dots>, Generations - 1\<close>. When no other termination condition triggers, the run
  returns, has executed exactly \<open>Generations\<close> generations and has invoked the callback
  exactly \<open>Generations\<close> times; the example after the theorem is a run with
  \<open>Generations = 10\<close>.
\<close>

theorem Run_reports:
  "(Run C config True cs es scheds s0 = Some s \<longrightarrow>
      reported s = reported s0 @ [0..<min (Suc (generation s)) (Generations config)]
      \<and> generation s \<le> Generations config)
   \<and> (never_stops C \<and> fixed_size C \<and> Idx C < d \<and> 0 < PopulationSize config
        \<and> {..<PopulationSize config} \<subseteq> snd ` set es \<longrightarrow>
      (\<exists>s1. Run C config True cs es scheds (GeneticProgrammingAlgorithm C config d r w) = Some s1
           \<and> generation s1 = Generations config
           \<and> reported s1 = [0..<Generations config]))"
proof (rule conjI; rule impI)
  assume "Run C config True cs es scheds s0 = Some s"
  then show "reported s = reported s0 @ [0..<min (Suc (generation s)) (Generations config)]
      \<and> generation s \<le> Generations config"
    using generations_loop_reported
      [of C config True scheds 0 "initialise C config cs es s0" s]
    by (simp add: Run_def)
next
  assume a: "never_stops C \<and> fixed_size C \<and> Idx C < d \<and> 0 < PopulationSize config
      \<and> {..<PopulationSize config} \<subseteq> snd ` set es"
  let ?s0 = "GeneticProgrammingAlgorithm C config d r w"
  have st: "steady C config (initialise C config cs es ?s0)"
    using a by (intro initialise_steady) simp_all
  from a have ns: "never_stops C" by simp
  from generations_loop_steady [OF ns st, of 0 True scheds]
  obtain s1 where s1: "Run C config True cs es scheds ?s0 = Some s1"
      "generation s1 = Generations config"
    by (auto simp: Run_def)
  have "reported s1 = reported ?s0 @ [0..<min (Suc (generation s1)) (Generations config)]"
    using generations_loop_reported
      [of C config True scheds 0 "initialise C config cs es ?s0" s1] s1(1)
    by (simp add: Run_def)
  then have "reported s1 = [0..<Generations config]"
    using s1(2) by (simp add: GeneticProgrammingAlgorithm_def)
  with s1 show "\<exists>s1. Run C config True cs es scheds ?s0 = Some s1
      \<and> generation s1 = Generations config \<and> reported s1 = [0..<Generations config]"
    by blast
qed

theorem Run_reports_witness:
  "never_stops demo \<and> fixed_size demo \<and> Idx demo < 1
   \<and> 0 < PopulationSize (demo_config 3 10)
   \<and> {..<PopulationSize (demo_config 3 10)} \<subseteq> snd ` set (sequential 0 3)
   \<and> (\<exists>s. Run demo (demo_config 3 10) True (sequential 0 3) (sequential 0 3)
              (\<lambda>g. sequential 1 3) (GeneticProgrammingAlgorithm demo (demo_config 3 10) 1 0 0)
            = Some s
          \<and> generation s = 10 \<and> reported s = [0, 1, 2, 3, 4, 5, 6, 7, 8, 9]
          \<and> length (reported s) = 10)"
proof -
  have h: "never_stops demo \<and> fixed_size demo \<and> Idx demo < 1
      \<and> 0 < PopulationSize (demo_config 3 10)
      \<and> {..<PopulationSize (demo_config 3 10)} \<subseteq> snd ` set (sequential 0 3)"
    using never_stops_demo fixed_size_demo by auto
  have u: "[0..<10] = [0, 1, 2, 3, 4, 5, 6, 7, 8, 9 :: nat]"
    by code_simp
  from Run_reports [of demo "demo_config 3 10" "sequential 0 3" "sequential 0 3"
      "\<lambda>g. sequential 1 3" _ _ 1 0 0] h
  obtain s where "Run demo (demo_config 3 10) True (sequential 0 3) (sequential 0 3)
        (\<lambda>g. sequential 1 3) (GeneticProgrammingAlgorithm demo (demo_config 3 10) 1 0 0) = Some s"
      "generation s = Generations (demo_config 3 10)"
      "reported s = [0..<Generations (demo_config 3 10)]"
    by blast
  with h u show ?thesis
    by auto
qed



text \<open>
  Claim C5, evaluated. With two slots, the seed table \<open>[0, 1]\<close> and an evaluator that
  draws from the generator it is handed: the same creation on one thread followed by
  the evaluation in the order \<open>0, 1\<close> or in the order \<open>1, 0\<close>, or creation and
  evaluation on two threads, give three different populations. \<open>evaluate\<close> uses the
  thread-local generator in the state in which the last work item of that thread left
  it; \<open>create\<close> and \<open>iterate\<close> assign it from the seed of the slot first.
\<close>

theorem evaluate_depends_on_schedule:
  "map Fitness (parents (initialise demo (demo_config 2 1) [(0, 0), (0, 1)] [(0, 0), (0, 1)]
      (GeneticProgrammingAlgorithm demo (demo_config 2 1) 1 0 0)))
     = [[Finite 1000], [Finite 4]]
   \<and> map Fitness (parents (initialise demo (demo_config 2 1) [(0, 0), (0, 1)] [(0, 1), (0, 0)]
      (GeneticProgrammingAlgorithm demo (demo_config 2 1) 1 0 0)))
     = [[Finite 4], [Finite 1000]]
   \<and> map Fitness (parents (initialise demo (demo_config 2 1) [(0, 0), (1, 1)] [(0, 0), (1, 1)]
      (GeneticProgrammingAlgorithm demo (demo_config 2 1) 1 0 0)))
     = [[Finite 2], [Finite 1000]]"
  by code_simp

section \<open>Properties of the grow tree creator\<close>

text \<open>
  Claim C8, evaluated. A creator constructed with maximum depth \<open>2\<close> and maximum length
  \<open>5\<close>, a grammar of addition, constants and variables, and a random device that
  yields \<open>1/10\<close> seven times: every draw above the leaves selects the addition, and the
  tree has the seven nodes of the full binary tree with three levels, two more than the
  maximum length.
\<close>

theorem GrowTreeCreator_exceeds_maxLength:
  "map_option (map Type)
     (GrowTreeCreator 2 5 (replicate 7 (1 / 10)) demo_grammar [\<lparr>Hash = 1\<rparr>])
     = Some [Constant, Constant, Add, Constant, Constant, Add, Add]
   \<and> map_option length
       (GrowTreeCreator 2 5 (replicate 7 (1 / 10)) demo_grammar [\<lparr>Hash = 1\<rparr>])
     = Some 7
   \<and> \<not> (7 :: nat) \<le> unat (5 :: 64 word)"
  by code_simp

end
